theory Spec2Isabelle
  imports Main "HOL-Library.Word"
begin

section \<open>Strings of the host language\<close>

text \<open>
  A string of the source language is a sequence of 16-bit code units; \<open>length\<close> and
  \<open>slice\<close> count code units. \<open>js\<close> turns a literal of the source into such a sequence.
\<close>

type_synonym code_unit = "16 word"
type_synonym jsstring = "code_unit list"

definition js :: "string \<Rightarrow> jsstring" where
  "js s = map (\<lambda>c. of_nat (of_char c)) s"

text \<open>
  \<open>String.prototype.trim\<close> removes the language's white space and line terminators from
  both ends: TAB, LF, VT, FF, CR, SP, NBSP, U+1680, U+2000 to U+200A, LS, PS, U+202F,
  U+205F, U+3000 and the byte order mark.
\<close>

definition is_white_space :: "code_unit \<Rightarrow> bool" where
  "is_white_space u \<longleftrightarrow>
     u \<in> {0x09, 0x0A, 0x0B, 0x0C, 0x0D, 0x20, 0xA0, 0x1680,
          0x2028, 0x2029, 0x202F, 0x205F, 0x3000, 0xFEFF}
     \<or> (0x2000 \<le> u \<and> u \<le> 0x200A)"

definition trim :: "jsstring \<Rightarrow> jsstring" where
  "trim s = rev (dropWhile is_white_space (rev (dropWhile is_white_space s)))"

section \<open>Parsed protocol messages\<close>

text \<open>
  The value \<open>JSON.parse\<close> returns. The payload of a number is never inspected by the
  program. An object is the list of its own properties.
\<close>

datatype json =
    JNull
  | JBool bool
  | JNumber int
  | JString jsstring
  | JArray "json list"
  | JObject "(jsstring \<times> json) list"

type_synonym JsonObject = "(jsstring \<times> json) list"

fun isJsonObject :: "json \<Rightarrow> bool" where
  "isJsonObject (JObject _) = True"
| "isJsonObject _ = False"

definition getJsonObject :: "JsonObject \<Rightarrow> jsstring \<Rightarrow> JsonObject option" where
  "getJsonObject obj key =
     (case map_of obj key of Some (JObject v) \<Rightarrow> Some v | _ \<Rightarrow> None)"

definition getString :: "JsonObject \<Rightarrow> jsstring \<Rightarrow> jsstring option" where
  "getString obj key =
     (case map_of obj key of Some (JString v) \<Rightarrow> Some v | _ \<Rightarrow> None)"

section \<open>The session and its environment\<close>

datatype ConnectionState = Disconnected | Connecting | Connected

text \<open>
  One entry per invocation site \<open>this.callbacks.onX?.(v)\<close>, in the order the sites are
  reached: what the host observes through the callbacks it has registered. The error
  callback is recorded with the message of the error it receives. Which callbacks are
  registered (the constructor's argument, \<open>updateCallbacks\<close>, \<open>dispose\<close>) is not part of
  the model, and a callback is taken to return without calling back into the session.
\<close>

datatype callback =
    OnConnectionStateChange ConnectionState
  | OnListeningChange bool
  | OnStatus jsstring
  | OnError jsstring
  | OnTranscriptDelta jsstring
  | OnTranscriptFinal jsstring

text \<open>What a rejected promise or a \<open>throw\<close> carries, as far as \<open>handleError\<close> distinguishes.\<close>

datatype thrown = ErrorObject jsstring | StringValue jsstring | OtherValue

text \<open>The two messages the session sends over the data channel, and its one HTTP request
  (bearer credential, body).\<close>

datatype outbound = SessionUpdate | ResponseCancel jsstring

datatype request = SdpPost jsstring jsstring

text \<open>
  A call of \<open>connect\<close> that has reached an \<open>await\<close>: the token it captured, the
  \<open>await\<close> it is suspended at, and its local variables. \<open>awaited\<close> says that a call of
  \<open>startListening\<close> is suspended on the promise of this call.
\<close>

datatype stage =
    AwaitGetUserMedia
  | AwaitCreateOffer
  | AwaitSetLocalDescription
  | AwaitFetch
  | AwaitResponseText
  | AwaitSetRemoteDescription

record attempt =
  token :: nat
  stage :: stage
  localStream :: "nat option"
  localPc :: "nat option"
  localDc :: "nat option"
  offerSdp :: jsstring
  awaited :: bool

text \<open>
  The fields of the class \<open>RealtimeTranscriber\<close>, the callbacks invoked so far, and the part
  of the browser the class acts on. Streams, peer connections and data channels are named by
  numbers in the order of their creation; \<open>created\<close> keeps, for each, the token of the call
  of \<open>connect\<close> that created it (a history variable: the program does not read it).
  \<open>released\<close> lists the channels and peers that were closed and the streams whose tracks were
  stopped; \<open>channelHandlers\<close> and \<open>peerHandlers\<close> give the token captured by the handlers
  still bound to a channel or a peer; \<open>enabledTracks\<close> lists the streams whose audio tracks
  are enabled, \<open>openChannels\<close> the channels whose \<open>readyState\<close> is \<open>open\<close>; \<open>sent\<close> and
  \<open>requests\<close> record what went out over a channel and over HTTP. \<open>attempts\<close> are the
  suspended calls of \<open>connect\<close>, \<open>listenWaiters\<close> counts the calls of \<open>startListening\<close>
  whose awaited \<open>connect\<close> has returned and which have not continued yet. The constructors
  of the browser (\<open>new RTCPeerConnection\<close>, \<open>createDataChannel\<close>) are taken to succeed.
\<close>

record state =
  apiKey :: jsstring
  pc :: "nat option"
  dc :: "nat option"
  mediaStream :: "nat option"
  connectionState :: ConnectionState
  listening :: bool
  connectToken :: nat
  activeTranscriptId :: "jsstring option"
  currentPartial :: jsstring
  calls :: "callback list"
  created :: "(nat \<times> nat) list"
  released :: "nat list"
  enabledTracks :: "nat list"
  openChannels :: "nat list"
  channelHandlers :: "(nat \<times> nat) list"
  peerHandlers :: "(nat \<times> nat) list"
  sent :: "(nat \<times> outbound) list"
  requests :: "request list"
  attempts :: "attempt list"
  listenWaiters :: nat

text \<open>
  What the program reads from its host without owning it: \<open>JSON.parse\<close> (\<open>None\<close> when it
  throws), whether \<open>window\<close> and \<open>navigator\<close> are defined, and whether
  \<open>navigator.mediaDevices.getUserMedia\<close> exists.
\<close>

record host =
  parseJSON :: "jsstring \<Rightarrow> json option"
  inBrowser :: bool
  hasGetUserMedia :: bool

subsection \<open>Construction\<close>

definition initial :: "jsstring \<Rightarrow> state" where
  "initial key =
     \<lparr> apiKey = key, pc = None, dc = None, mediaStream = None,
       connectionState = Disconnected, listening = False, connectToken = 0,
       activeTranscriptId = None, currentPartial = [], calls = [],
       created = [], released = [], enabledTracks = [], openChannels = [],
       channelHandlers = [], peerHandlers = [], sent = [], requests = [],
       attempts = [], listenWaiters = 0 \<rparr>"

definition new_RealtimeTranscriber :: "jsstring \<Rightarrow> jsstring + state" where
  "new_RealtimeTranscriber key =
     (if trim key = [] then Inl (js ''API key is required to initialise RealtimeTranscriber'')
      else Inr (initial key))"

subsection \<open>Private setters and notifications\<close>

definition emit :: "callback \<Rightarrow> state \<Rightarrow> state" where
  "emit c s = s\<lparr>calls := calls s @ [c]\<rparr>"

definition setListeningState :: "bool \<Rightarrow> state \<Rightarrow> state" where
  "setListeningState isListening s =
     (if listening s = isListening then s
      else emit (OnListeningChange isListening) (s\<lparr>listening := isListening\<rparr>))"

definition setConnectionState :: "ConnectionState \<Rightarrow> state \<Rightarrow> state" where
  "setConnectionState st s =
     (let s1 = (if st \<noteq> Connected then setListeningState False s else s)
      in if connectionState s1 = st then s1
         else emit (OnConnectionStateChange st) (s1\<lparr>connectionState := st\<rparr>))"

definition status :: "jsstring \<Rightarrow> state \<Rightarrow> state" where
  "status message s =
     (let trimmed = trim message
      in if trimmed = [] then s else emit (OnStatus trimmed) s)"

definition handleError :: "thrown \<Rightarrow> state \<Rightarrow> state" where
  "handleError e s =
     emit (OnError (case e of
                      ErrorObject m \<Rightarrow> m
                    | StringValue m \<Rightarrow> m
                    | OtherValue \<Rightarrow> js ''Unknown error'')) s"

definition resetTranscriptState :: "state \<Rightarrow> state" where
  "resetTranscriptState s = s\<lparr>activeTranscriptId := None, currentPartial := []\<rparr>"

definition invalidateConnectionAttempts :: "state \<Rightarrow> state" where
  "invalidateConnectionAttempts s = s\<lparr>connectToken := connectToken s + 1\<rparr>"

definition isCurrentToken :: "nat \<Rightarrow> state \<Rightarrow> bool" where
  "isCurrentToken t s \<longleftrightarrow> t = connectToken s"

subsection \<open>Transcript reconciliation\<close>

definition handleTranscriptDelta :: "jsstring option \<Rightarrow> jsstring \<Rightarrow> state \<Rightarrow> state" where
  "handleTranscriptDelta itemId delta s =
     (case itemId of
        None \<Rightarrow> s
      | Some i \<Rightarrow>
          if i = [] then s
          else
            let s1 = (if activeTranscriptId s \<noteq> Some i
                      then s\<lparr>activeTranscriptId := Some i, currentPartial := []\<rparr>
                      else s);
                s2 = s1\<lparr>currentPartial := currentPartial s1 @ delta\<rparr>
            in emit (OnTranscriptDelta delta) s2)"

definition handleTranscriptComplete :: "jsstring option \<Rightarrow> jsstring \<Rightarrow> state \<Rightarrow> state" where
  "handleTranscriptComplete itemId text s =
     (case itemId of
        None \<Rightarrow> s
      | Some i \<Rightarrow>
          if i = [] then s
          else
            let s1 = (if activeTranscriptId s \<noteq> Some i
                      then s\<lparr>activeTranscriptId := Some i\<rparr>
                      else s);
                finalText = text;
                s2 = (if finalText \<noteq> [] \<and> length finalText > length (currentPartial s1)
                      then
                        (let extra = drop (length (currentPartial s1)) finalText
                         in if extra \<noteq> [] then emit (OnTranscriptDelta extra) s1 else s1)
                      else s1);
                s3 = (if finalText \<noteq> [] then emit (OnTranscriptFinal finalText) s2 else s2);
                s4 = s3\<lparr>activeTranscriptId := None, currentPartial := []\<rparr>
            in status (js ''Ready.'') s4)"

subsection \<open>Listening\<close>

definition stopListening :: "bool \<Rightarrow> state \<Rightarrow> state" where
  "stopListening skipStatusUpdate s =
     (if \<not> listening s then s
      else
        let s1 = (case mediaStream s of
                    Some m \<Rightarrow> s\<lparr>enabledTracks := removeAll m (enabledTracks s)\<rparr>
                  | None \<Rightarrow> s);
            s2 = setListeningState False s1
        in if \<not> skipStatusUpdate then status (js ''Processing. Stand by.'') s2 else s2)"

subsection \<open>Releasing resources\<close>

definition closeChannel :: "nat \<Rightarrow> state \<Rightarrow> state" where
  "closeChannel c s =
     s\<lparr>channelHandlers := filter (\<lambda>h. fst h \<noteq> c) (channelHandlers s),
       openChannels := removeAll c (openChannels s),
       released := released s @ [c]\<rparr>"

definition closePeer :: "nat \<Rightarrow> state \<Rightarrow> state" where
  "closePeer p s =
     s\<lparr>peerHandlers := filter (\<lambda>h. fst h \<noteq> p) (peerHandlers s),
       released := released s @ [p]\<rparr>"

definition stopTracks :: "nat \<Rightarrow> state \<Rightarrow> state" where
  "stopTracks m s = s\<lparr>released := released s @ [m]\<rparr>"

definition cleanupLocalConnection ::
  "nat option \<Rightarrow> nat option \<Rightarrow> nat option \<Rightarrow> state \<Rightarrow> state" where
  "cleanupLocalConnection stream peer dataChannel s =
     (let s1 = (case dataChannel of Some c \<Rightarrow> closeChannel c s | None \<Rightarrow> s);
          s2 = (case peer of Some p \<Rightarrow> closePeer p s1 | None \<Rightarrow> s1)
      in case stream of Some m \<Rightarrow> stopTracks m s2 | None \<Rightarrow> s2)"

definition teardown :: "bool \<Rightarrow> bool \<Rightarrow> state \<Rightarrow> state" where
  "teardown keepState preserveStatus s =
     (let s1 = (if listening s then stopListening True s else s);
          s2 = (case dc s1 of Some c \<Rightarrow> (closeChannel c s1)\<lparr>dc := None\<rparr> | None \<Rightarrow> s1);
          s3 = (case pc s2 of Some p \<Rightarrow> (closePeer p s2)\<lparr>pc := None\<rparr> | None \<Rightarrow> s2);
          s4 = (case mediaStream s3 of
                  Some m \<Rightarrow> (stopTracks m s3)\<lparr>mediaStream := None\<rparr>
                | None \<Rightarrow> s3);
          s5 = resetTranscriptState s4
      in if \<not> keepState
         then
           (let s6 = setConnectionState Disconnected s5
            in if \<not> preserveStatus then status (js ''Disconnected.'') s6 else s6)
         else s5)"

definition disconnect :: "state \<Rightarrow> state" where
  "disconnect s = teardown False False (invalidateConnectionAttempts s)"

subsection \<open>Data channel and peer handlers\<close>

definition safeSend :: "outbound \<Rightarrow> state \<Rightarrow> state" where
  "safeSend obj s =
     (case dc s of
        Some c \<Rightarrow> if c \<in> set (openChannels s) then s\<lparr>sent := sent s @ [(c, obj)]\<rparr> else s
      | None \<Rightarrow> s)"

definition configureSession :: "state \<Rightarrow> state" where
  "configureSession s = safeSend SessionUpdate s"

definition handleDataChannelOpen :: "nat \<Rightarrow> state \<Rightarrow> state" where
  "handleDataChannelOpen t s =
     (if \<not> isCurrentToken t s then s
      else
        let s1 = status (js ''Connected. Configuring.'') s;
            s2 = setConnectionState Connected s1;
            s3 = resetTranscriptState s2
        in configureSession s3)"

definition handleDataChannelClosed :: "nat \<Rightarrow> state \<Rightarrow> state" where
  "handleDataChannelClosed t s =
     (if \<not> isCurrentToken t s then s
      else teardown False False (status (js ''Connection closed.'') s))"

text \<open>The value of \<open>peer.connectionState\<close> the handler reads.\<close>

datatype peerState =
  PeerNew | PeerConnecting | PeerConnected | PeerDisconnected | PeerFailed | PeerClosed

definition handlePeerConnectionStateChange :: "nat \<Rightarrow> peerState \<Rightarrow> state \<Rightarrow> state" where
  "handlePeerConnectionStateChange t st s =
     (if \<not> isCurrentToken t s then s
      else if st = PeerFailed \<or> st = PeerDisconnected \<or> st = PeerClosed
      then teardown False False (status (js ''Connection lost.'') s)
      else s)"

subsection \<open>Inbound protocol events\<close>

text \<open>\<open>event.data\<close>: a string, or anything else.\<close>

datatype messageData = TextData jsstring | OtherData

text \<open>The expression \<open>(errorObj && getString(errorObj, "message")) || "unknown"\<close>, which the
  branches for \<open>error\<close> and \<open>response.error\<close> both evaluate.\<close>

definition nestedErrorMessage :: "JsonObject \<Rightarrow> jsstring" where
  "nestedErrorMessage parsed =
     (case getJsonObject parsed (js ''error'') of
        None \<Rightarrow> js ''unknown''
      | Some errorObj \<Rightarrow>
          (case getString errorObj (js ''message'') of
             None \<Rightarrow> js ''unknown''
           | Some m \<Rightarrow> if m = [] then js ''unknown'' else m))"

definition surfaceProtocolError :: "JsonObject \<Rightarrow> state \<Rightarrow> state" where
  "surfaceProtocolError parsed s =
     (let message = nestedErrorMessage parsed
      in emit (OnError message) (status (js ''Error: '' @ message) s))"

definition dispatch :: "JsonObject \<Rightarrow> state \<Rightarrow> state" where
  "dispatch parsed s =
     (let type = (case getString parsed (js ''type'') of Some t \<Rightarrow> t | None \<Rightarrow> [])
      in
        if type = js ''error'' then surfaceProtocolError parsed s
        else if type = js ''response.created'' then
          (let responseId = (case getJsonObject parsed (js ''response'') of
                               Some responseObj \<Rightarrow> getString responseObj (js ''id'')
                             | None \<Rightarrow> None)
           in case responseId of
                Some r \<Rightarrow> if r \<noteq> [] then safeSend (ResponseCancel r) s else s
              | None \<Rightarrow> s)
        else if type = js ''conversation.item.input_audio_transcription.delta'' then
          (case (getString parsed (js ''item_id''), getString parsed (js ''delta'')) of
             (Some itemId, Some delta) \<Rightarrow>
               if itemId \<noteq> [] \<and> delta \<noteq> []
               then handleTranscriptDelta (Some itemId) delta s else s
           | _ \<Rightarrow> s)
        else if type = js ''conversation.item.input_audio_transcription.completed'' then
          (let transcript =
                 (case getString parsed (js ''transcript'') of
                    Some v \<Rightarrow> v
                  | None \<Rightarrow>
                      (case getString parsed (js ''text'') of Some v \<Rightarrow> v | None \<Rightarrow> []))
           in case getString parsed (js ''item_id'') of
                Some itemId \<Rightarrow>
                  if itemId \<noteq> [] then handleTranscriptComplete (Some itemId) transcript s else s
              | None \<Rightarrow> s)
        else if type = js ''transcript.delta'' then
          (let itemId = (case getString parsed (js ''item_id'') of
                           Some v \<Rightarrow> v | None \<Rightarrow> js ''default'')
           in case getString parsed (js ''delta'') of
                Some delta \<Rightarrow>
                  if delta \<noteq> [] then handleTranscriptDelta (Some itemId) delta s else s
              | None \<Rightarrow> s)
        else if type = js ''transcript.completed'' then
          (let itemId = (case getString parsed (js ''item_id'') of
                           Some v \<Rightarrow> v | None \<Rightarrow> js ''default'')
           in case getString parsed (js ''text'') of
                Some text \<Rightarrow>
                  if text \<noteq> [] then handleTranscriptComplete (Some itemId) text s else s
              | None \<Rightarrow> s)
        else if type = js ''session.updated'' then status (js ''Ready.'') s
        else if type = js ''response.error'' then surfaceProtocolError parsed s
        else s)"

definition onRealtimeEvent :: "host \<Rightarrow> messageData \<Rightarrow> state \<Rightarrow> state" where
  "onRealtimeEvent h event s =
     (let data = (case event of TextData d \<Rightarrow> d | OtherData \<Rightarrow> [])
      in if data = [] then s
         else
           (case parseJSON h data of
              None \<Rightarrow> s
            | Some parsed \<Rightarrow>
                (case parsed of JObject obj \<Rightarrow> dispatch obj s | _ \<Rightarrow> s)))"

text \<open>The type tags \<open>onRealtimeEvent\<close> compares against.\<close>

definition recognizedTypes :: "jsstring list" where
  "recognizedTypes =
     [js ''error'', js ''response.created'',
      js ''conversation.item.input_audio_transcription.delta'',
      js ''conversation.item.input_audio_transcription.completed'',
      js ''transcript.delta'', js ''transcript.completed'',
      js ''session.updated'', js ''response.error'']"

subsection \<open>Connecting\<close>

text \<open>
  \<open>connect\<close> is an asynchronous function. \<open>connect\<close> below is its run up to the first
  \<open>await\<close> (or to its return or throw before that); \<open>resume\<close> is the run from one
  \<open>await\<close> to the next, or to the end. The result \<open>Inl\<close> is the message of the error the
  returned promise is rejected with.
\<close>

definition connect :: "host \<Rightarrow> state \<Rightarrow> jsstring + state" where
  "connect h s =
     (if connectionState s = Connected then Inr s
      else if connectionState s = Connecting then Inr s
      else if \<not> inBrowser h
      then Inl (js ''RealtimeTranscriber can only connect in a browser environment'')
      else if \<not> hasGetUserMedia h
      then Inl (js ''Browser does not support required media APIs'')
      else
        let t = connectToken s + 1;
            s1 = s\<lparr>connectToken := t\<rparr>;
            s2 = setConnectionState Connecting s1;
            s3 = status (js ''Requesting microphone.'') s2;
            s4 = teardown True True s3
        in Inr (s4\<lparr>attempts := attempts s4 @
                  [\<lparr>token = t, stage = AwaitGetUserMedia, localStream = None,
                    localPc = None, localDc = None, offerSdp = [], awaited = False\<rparr>]\<rparr>))"

text \<open>The call returns: its promise settles, and a \<open>startListening\<close> suspended on it becomes
  ready to continue.\<close>

definition finish :: "attempt \<Rightarrow> state \<Rightarrow> state" where
  "finish a s =
     s\<lparr>attempts := filter (\<lambda>b. token b \<noteq> token a) (attempts s),
       listenWaiters := listenWaiters s + (if awaited a then 1 else 0)\<rparr>"

text \<open>The call reaches its next \<open>await\<close> with the locals \<open>a\<close>.\<close>

definition suspend :: "attempt \<Rightarrow> state \<Rightarrow> state" where
  "suspend a s = s\<lparr>attempts := map (\<lambda>b. if token b = token a then a else b) (attempts s)\<rparr>"

text \<open>The branch \<open>if (!this.isCurrentToken(token)) { this.cleanupLocalConnection(...); return; }\<close>.\<close>

definition abandon :: "attempt \<Rightarrow> state \<Rightarrow> state" where
  "abandon a s = finish a (cleanupLocalConnection (localStream a) (localPc a) (localDc a) s)"

definition catchBlock :: "attempt \<Rightarrow> thrown \<Rightarrow> state \<Rightarrow> state" where
  "catchBlock a e s =
     (let s1 = cleanupLocalConnection (localStream a) (localPc a) (localDc a) s
      in if \<not> isCurrentToken (token a) s1 then finish a s1
         else finish a (setConnectionState Disconnected (handleError e s1)))"

text \<open>
  What an awaited promise is fulfilled with: nothing the program reads, the text of a session
  description or of a response body, or an HTTP response (\<open>ok\<close>, \<open>status\<close> printed as in a
  template string, \<open>statusText\<close>). The browser fulfils each promise with a value of its own
  type; a response is read off another value as not \<open>ok\<close>.
\<close>

datatype fulfilment = Plain | Text jsstring | Response bool jsstring jsstring

datatype settlement = Fulfilled fulfilment | Rejected thrown

definition resumeFulfilled :: "attempt \<Rightarrow> fulfilment \<Rightarrow> state \<Rightarrow> state" where
  "resumeFulfilled a v s =
     (case stage a of
        AwaitGetUserMedia \<Rightarrow>
          let m = length (created s);
              s1 = s\<lparr>created := created s @ [(m, token a)]\<rparr>;
              a1 = a\<lparr>localStream := Some m\<rparr>
          in if \<not> isCurrentToken (token a) s1 then abandon a1 s1
             else
               let s2 = status (js ''Building connection.'') s1;
                   p = length (created s2);
                   s3 = s2\<lparr>created := created s2 @ [(p, token a)],
                           peerHandlers := peerHandlers s2 @ [(p, token a)],
                           enabledTracks := removeAll m (enabledTracks s2)\<rparr>;
                   a2 = a1\<lparr>localPc := Some p\<rparr>
               in if \<not> isCurrentToken (token a) s3 then abandon a2 s3
                  else
                    let c = length (created s3);
                        s4 = s3\<lparr>created := created s3 @ [(c, token a)],
                                channelHandlers := channelHandlers s3 @ [(c, token a)]\<rparr>;
                        a3 = a2\<lparr>localDc := Some c, stage := AwaitCreateOffer\<rparr>
                    in suspend a3 s4
      | AwaitCreateOffer \<Rightarrow>
          let a1 = a\<lparr>offerSdp := (case v of Text sdp \<Rightarrow> sdp | _ \<Rightarrow> [])\<rparr>
          in if \<not> isCurrentToken (token a) s then abandon a1 s
             else suspend (a1\<lparr>stage := AwaitSetLocalDescription\<rparr>) s
      | AwaitSetLocalDescription \<Rightarrow>
          if \<not> isCurrentToken (token a) s then abandon a s
          else
            let s1 = status (js ''Exchanging SDP.'') s;
                s2 = s1\<lparr>requests := requests s1 @ [SdpPost (apiKey s1) (offerSdp a)]\<rparr>
            in suspend (a\<lparr>stage := AwaitFetch\<rparr>) s2
      | AwaitFetch \<Rightarrow>
          if \<not> isCurrentToken (token a) s then abandon a s
          else
            (case v of
               Response ok st stText \<Rightarrow>
                 if \<not> ok
                 then catchBlock a
                        (ErrorObject (js ''SDP exchange failed: '' @ st @ js '' '' @ stText)) s
                 else suspend (a\<lparr>stage := AwaitResponseText\<rparr>) s
             | _ \<Rightarrow>
                 catchBlock a (ErrorObject (js ''SDP exchange failed: undefined undefined'')) s)
      | AwaitResponseText \<Rightarrow>
          if \<not> isCurrentToken (token a) s then abandon a s
          else suspend (a\<lparr>stage := AwaitSetRemoteDescription\<rparr>) s
      | AwaitSetRemoteDescription \<Rightarrow>
          if \<not> isCurrentToken (token a) s then abandon a s
          else
            let s1 = s\<lparr>pc := localPc a, dc := localDc a, mediaStream := localStream a\<rparr>
            in finish a (status (js ''Waiting for channel.'') s1))"

definition resume :: "attempt \<Rightarrow> settlement \<Rightarrow> state \<Rightarrow> state" where
  "resume a r s =
     (case r of
        Rejected e \<Rightarrow> catchBlock a e s
      | Fulfilled v \<Rightarrow> resumeFulfilled a v s)"

subsection \<open>Starting to listen\<close>

text \<open>The part of \<open>startListening\<close> after the connection check.\<close>

definition beginListening :: "state \<Rightarrow> state" where
  "beginListening s =
     (if listening s then s
      else
        let s1 = (case mediaStream s of
                    Some m \<Rightarrow> s\<lparr>enabledTracks := enabledTracks s @ [m]\<rparr>
                  | None \<Rightarrow> s);
            s2 = resetTranscriptState s1;
            s3 = setListeningState True s2
        in status (js ''Listening.'') s3)"

text \<open>\<open>startListening\<close> up to its \<open>await this.connect()\<close>, or to its end when the session is
  not Disconnected.\<close>

definition startListening :: "host \<Rightarrow> state \<Rightarrow> jsstring + state" where
  "startListening h s =
     (if connectionState s = Disconnected
      then
        (case connect h s of
           Inl e \<Rightarrow> Inl e
         | Inr s1 \<Rightarrow>
             Inr (s1\<lparr>attempts :=
                       map (\<lambda>b. if token b = connectToken s1 then b\<lparr>awaited := True\<rparr> else b)
                         (attempts s1)\<rparr>))
      else Inr (beginListening s))"

text \<open>\<open>startListening\<close> after \<open>await this.connect()\<close> has returned.\<close>

definition startListeningResumed :: "state \<Rightarrow> state" where
  "startListeningResumed s =
     (if listenWaiters s = 0 then s
      else
        let s1 = s\<lparr>listenWaiters := listenWaiters s - 1\<rparr>
        in if connectionState s1 \<noteq> Connected then s1 else beginListening s1)"

section \<open>Runs of the session\<close>

text \<open>
  Everything that can happen to a session between two moments at which it is idle: a call of
  a public method, the settling of the promise a suspended \<open>connect\<close> awaits, the
  continuation of a suspended \<open>startListening\<close>, and the events of a data channel or a peer
  connection (delivered to the handler bound to it, if one still is).
\<close>

datatype input =
    Connect
  | Disconnect
  | StartListening
  | StopListening
  | Settle nat settlement
  | ContinueStartListening
  | ChannelOpen nat
  | ChannelClose nat
  | ChannelMessage nat messageData
  | PeerStateChange nat peerState

definition step :: "host \<Rightarrow> input \<Rightarrow> state \<Rightarrow> state" where
  "step h i s =
     (case i of
        Connect \<Rightarrow> (case connect h s of Inl e \<Rightarrow> s | Inr s' \<Rightarrow> s')
      | Disconnect \<Rightarrow> disconnect s
      | StartListening \<Rightarrow> (case startListening h s of Inl e \<Rightarrow> s | Inr s' \<Rightarrow> s')
      | StopListening \<Rightarrow> stopListening False s
      | Settle t r \<Rightarrow>
          (case find (\<lambda>a. token a = t) (attempts s) of
             None \<Rightarrow> s
           | Some a \<Rightarrow> resume a r s)
      | ContinueStartListening \<Rightarrow> startListeningResumed s
      | ChannelOpen c \<Rightarrow>
          (case map_of (channelHandlers s) c of
             None \<Rightarrow> s
           | Some t \<Rightarrow> handleDataChannelOpen t (s\<lparr>openChannels := openChannels s @ [c]\<rparr>))
      | ChannelClose c \<Rightarrow>
          (case map_of (channelHandlers s) c of
             None \<Rightarrow> s
           | Some t \<Rightarrow> handleDataChannelClosed t (s\<lparr>openChannels := removeAll c (openChannels s)\<rparr>))
      | ChannelMessage c d \<Rightarrow>
          (case map_of (channelHandlers s) c of
             None \<Rightarrow> s
           | Some t \<Rightarrow> onRealtimeEvent h d s)
      | PeerStateChange p st \<Rightarrow>
          (case map_of (peerHandlers s) p of
             None \<Rightarrow> s
           | Some t \<Rightarrow> handlePeerConnectionStateChange t st s))"

definition run :: "host \<Rightarrow> input list \<Rightarrow> state \<Rightarrow> state" where
  "run h is s = fold (step h) is s"

section \<open>The connection orchestrator\<close>

text \<open>
  The state of the component \<open>TranscriptionProvider\<close>: its React state (\<open>apiKey\<close>,
  \<open>connectionState\<close>, \<open>listening\<close>, \<open>status\<close>, \<open>error\<close>, here with the suffix
  \<open>_p\<close>) and its refs. A listener is named by a number; \<open>listenerCalls\<close> records what was
  forwarded to which listener.
\<close>

record provider =
  apiKey_p :: "jsstring option"
  connectionState_p :: ConnectionState
  listening_p :: bool
  status_p :: jsstring
  error_p :: "jsstring option"
  transcriberRef :: "state option"
  pendingConnectRef :: bool
  listenerRef :: "nat option"
  listenerCalls :: "(nat \<times> callback) list"

text \<open>The callbacks the provider registers with its session.\<close>

fun deliver :: "callback \<Rightarrow> provider \<Rightarrow> provider" where
  "deliver (OnConnectionStateChange st) p =
     (let p1 = p\<lparr>connectionState_p := st\<rparr>
      in if st = Disconnected then p1\<lparr>listening_p := False\<rparr> else p1)"
| "deliver (OnListeningChange b) p = p\<lparr>listening_p := b\<rparr>"
| "deliver (OnStatus m) p = p\<lparr>status_p := m, error_p := None\<rparr>"
| "deliver (OnError m) p = p\<lparr>error_p := Some m\<rparr>"
| "deliver (OnTranscriptDelta d) p =
     (case listenerRef p of
        Some l \<Rightarrow> p\<lparr>listenerCalls := listenerCalls p @ [(l, OnTranscriptDelta d)]\<rparr>
      | None \<Rightarrow> p)"
| "deliver (OnTranscriptFinal d) p =
     (case listenerRef p of
        Some l \<Rightarrow> p\<lparr>listenerCalls := listenerCalls p @ [(l, OnTranscriptFinal d)]\<rparr>
      | None \<Rightarrow> p)"

text \<open>The session went from \<open>t\<close> to \<open>t'\<close> inside a call made by the provider: the provider
  keeps the new session and receives the callbacks invoked in between.\<close>

definition absorb :: "state \<Rightarrow> state \<Rightarrow> provider \<Rightarrow> provider" where
  "absorb t t' p =
     fold deliver (drop (length (calls t)) (calls t')) (p\<lparr>transcriberRef := Some t'\<rparr>)"

text \<open>How far a call of an asynchronous function of the provider got: it threw (the promise
  is rejected with this message), it returned, or it is suspended at an \<open>await\<close> of a promise
  that is still pending.\<close>

datatype progress = Throws jsstring | Returns | Awaits

definition noApiKey :: "provider \<Rightarrow> bool" where
  "noApiKey p \<longleftrightarrow> apiKey_p p = None \<or> apiKey_p p = Some []"

definition ensureTranscriber :: "provider \<Rightarrow> jsstring + (state option \<times> provider)" where
  "ensureTranscriber p =
     (case apiKey_p p of
        None \<Rightarrow> Inr (None, p)
      | Some key \<Rightarrow>
          if key = [] then Inr (None, p)
          else
            (case transcriberRef p of
               Some t \<Rightarrow> Inr (Some t, p)
             | None \<Rightarrow>
                 (case new_RealtimeTranscriber key of
                    Inl e \<Rightarrow> Inl e
                  | Inr t \<Rightarrow> Inr (Some t, p\<lparr>transcriberRef := Some t\<rparr>))))"

text \<open>\<open>ensureConnected\<close> up to its first \<open>await\<close> of a pending promise.\<close>

definition ensureConnected :: "host \<Rightarrow> provider \<Rightarrow> provider \<times> progress" where
  "ensureConnected h p =
     (if noApiKey p
      then (p\<lparr>error_p := Some (js ''OpenAI API key required.'')\<rparr>,
            Throws (js ''OpenAI API key required.''))
      else
        (case ensureTranscriber p of
           Inl e \<Rightarrow> (p, Throws e)
         | Inr (None, p1) \<Rightarrow>
             (p1\<lparr>error_p := Some (js ''Unable to initialise transcription session.'')\<rparr>,
              Throws (js ''Unable to initialise transcription session.''))
         | Inr (Some t, p1) \<Rightarrow>
             if connectionState t = Connected then (p1, Returns)
             else if pendingConnectRef p1 then (p1, Awaits)
             else
               (case connect h t of
                  Inl e \<Rightarrow> (p1\<lparr>error_p := Some e, pendingConnectRef := False\<rparr>, Throws e)
                | Inr t' \<Rightarrow>
                    if connectionState t = Connecting then (p1, Returns)
                    else (absorb t t' (p1\<lparr>pendingConnectRef := True\<rparr>), Awaits))))"

text \<open>\<open>startListening\<close> of the provider, as far as it runs without waiting for a pending
  promise.\<close>

definition startListening_p :: "host \<Rightarrow> nat option \<Rightarrow> provider \<Rightarrow> provider \<times> progress" where
  "startListening_p h listener p =
     (let p1 = p\<lparr>listenerRef := listener\<rparr>
      in case ensureConnected h p1 of
           (p2, Throws e) \<Rightarrow> (p2\<lparr>error_p := Some e\<rparr>, Throws e)
         | (p2, Awaits) \<Rightarrow> (p2, Awaits)
         | (p2, Returns) \<Rightarrow>
             (case transcriberRef p2 of
                None \<Rightarrow> (p2, Returns)
              | Some t \<Rightarrow>
                  (case startListening h t of
                     Inl e \<Rightarrow> (p2\<lparr>error_p := Some e\<rparr>, Throws e)
                   | Inr t' \<Rightarrow>
                       (absorb t t' p2,
                        if connectionState t = Disconnected then Awaits else Returns))))"

section \<open>Notions used by the properties\<close>

subsection \<open>Reading the callbacks\<close>

fun deltaPayloads :: "callback list \<Rightarrow> jsstring list" where
  "deltaPayloads [] = []"
| "deltaPayloads (OnTranscriptDelta d # cs) = d # deltaPayloads cs"
| "deltaPayloads (_ # cs) = deltaPayloads cs"

fun finalPayloads :: "callback list \<Rightarrow> jsstring list" where
  "finalPayloads [] = []"
| "finalPayloads (OnTranscriptFinal d # cs) = d # finalPayloads cs"
| "finalPayloads (_ # cs) = finalPayloads cs"

text \<open>The callbacks invoked on the way from \<open>s\<close> to \<open>s'\<close>.\<close>

definition callsSince :: "state \<Rightarrow> state \<Rightarrow> callback list" where
  "callsSince s s' = drop (length (calls s)) (calls s')"

text \<open>\<open>xs\<close> occur in \<open>ys\<close> in this order, possibly with other entries in between.\<close>

fun occurInOrder :: "'a list \<Rightarrow> 'a list \<Rightarrow> bool" where
  "occurInOrder [] ys = True"
| "occurInOrder (x # xs) [] = False"
| "occurInOrder (x # xs) (y # ys) =
     (if x = y then occurInOrder xs ys else occurInOrder (x # xs) ys)"

subsection \<open>Reconciliation of one item\<close>

text \<open>The delta events \<open>ds\<close> of item \<open>i\<close>, in order, followed by its completed event with
  text \<open>F\<close>.\<close>

definition reconcile :: "jsstring \<Rightarrow> jsstring list \<Rightarrow> jsstring \<Rightarrow> state \<Rightarrow> state" where
  "reconcile i ds F s =
     handleTranscriptComplete (Some i) F (fold (handleTranscriptDelta (Some i)) ds s)"

definition gapFreeExactlyOnce :: "jsstring \<Rightarrow> jsstring list \<Rightarrow> jsstring \<Rightarrow> state \<Rightarrow> bool" where
  "gapFreeExactlyOnce i ds F s \<longleftrightarrow>
     concat (deltaPayloads (callsSince s (reconcile i ds F s))) = F \<and>
     finalPayloads (callsSince s (reconcile i ds F s)) = [F]"

subsection \<open>Ownership of resources\<close>

fun optList :: "'a option \<Rightarrow> 'a list" where
  "optList None = []"
| "optList (Some x) = [x]"

text \<open>The resources a suspended \<open>connect\<close> holds in its locals, and the resources the fields
  of the session refer to.\<close>

definition held :: "attempt \<Rightarrow> nat list" where
  "held a = optList (localStream a) @ optList (localPc a) @ optList (localDc a)"

definition live :: "state \<Rightarrow> nat list" where
  "live s = optList (mediaStream s) @ optList (pc s) @ optList (dc s)"

subsection \<open>A host and messages for concrete runs\<close>

definition quoted :: "jsstring \<Rightarrow> jsstring" where
  "quoted s = [0x22] @ s @ [0x22]"

text \<open>The texts \<open>{"type":"error","error":{"message":"quota"}}\<close>, \<open>{"type":"ping"}\<close>,
  \<open>[1]\<close> and \<open>{"type"\<close>.\<close>

definition wireError :: jsstring where
  "wireError =
     js ''{'' @ quoted (js ''type'') @ js '':'' @ quoted (js ''error'') @ js '','' @
     quoted (js ''error'') @ js '':{'' @ quoted (js ''message'') @ js '':'' @
     quoted (js ''quota'') @ js ''}}''"

definition wirePing :: jsstring where
  "wirePing = js ''{'' @ quoted (js ''type'') @ js '':'' @ quoted (js ''ping'') @ js ''}''"

definition wireArray :: jsstring where
  "wireArray = js ''[1]''"

definition wireBroken :: jsstring where
  "wireBroken = js ''{'' @ quoted (js ''type'')"

text \<open>A browser whose \<open>JSON.parse\<close> is given on these four texts (it throws on every other
  text, which is right for \<open>wireBroken\<close> and a restriction elsewhere).\<close>

definition demoParse :: "jsstring \<Rightarrow> json option" where
  "demoParse d =
     (if d = wireError
      then Some (JObject [(js ''type'', JString (js ''error'')),
                          (js ''error'', JObject [(js ''message'', JString (js ''quota''))])])
      else if d = wirePing then Some (JObject [(js ''type'', JString (js ''ping''))])
      else if d = wireArray then Some (JArray [JNumber 1])
      else None)"

definition browser :: host where
  "browser = \<lparr> parseJSON = demoParse, inBrowser = True, hasGetUserMedia = True \<rparr>"


subsection \<open>Stopping and disconnecting when idle\<close>

text \<open>\<open>stopListening\<close>, with or without the status update, changes nothing.\<close>

definition stopIsNoOp :: "state \<Rightarrow> bool" where
  "stopIsNoOp s \<longleftrightarrow> stopListening False s = s \<and> stopListening True s = s"

text \<open>What \<open>disconnect\<close> does and does not do on a session that is Disconnected.\<close>

definition disconnectWhenDisconnected :: "state \<Rightarrow> bool" where
  "disconnectWhenDisconnected s \<longleftrightarrow>
     (connectionState s = Disconnected \<longrightarrow>
        connectionState (disconnect s) = Disconnected \<and>
        listening (disconnect s) = False \<and>
        live (disconnect s) = [] \<and>
        connectToken (disconnect s) = connectToken s + 1 \<and>
        calls (disconnect s) = calls s @ [OnStatus (js ''Disconnected.'')])"

text \<open>A Disconnected session is not listening (an invariant of all runs), and two states
  agree on connection state and listening flag.\<close>

definition idleWhenDisconnected :: "state \<Rightarrow> bool" where
  "idleWhenDisconnected s \<longleftrightarrow> (connectionState s = Disconnected \<longrightarrow> \<not> listening s)"

definition sameMode :: "state \<Rightarrow> state \<Rightarrow> bool" where
  "sameMode s s' \<longleftrightarrow> connectionState s' = connectionState s \<and> listening s' = listening s"

text \<open>\<open>connect()\<close> whose request for the microphone is refused.\<close>

definition captureDenied :: "input list" where
  "captureDenied = [Connect, Settle 1 (Rejected (ErrorObject (js ''Permission denied'')))]"

subsection \<open>Inbound messages that are dropped\<close>

text \<open>The discriminator \<open>getString(parsed, "type") ?? ""\<close>.\<close>

definition typeTag :: "JsonObject \<Rightarrow> jsstring" where
  "typeTag obj = (case getString obj (js ''type'') of Some t \<Rightarrow> t | None \<Rightarrow> [])"

text \<open>The message is not a string, is the empty string, does not parse, parses to
  something that is not an object, or is an object whose type tag is none of the recognized
  ones.\<close>

definition discarded :: "host \<Rightarrow> messageData \<Rightarrow> bool" where
  "discarded h event \<longleftrightarrow>
     (case event of
        OtherData \<Rightarrow> True
      | TextData d \<Rightarrow>
          d = [] \<or>
          (case parseJSON h d of
             None \<Rightarrow> True
           | Some (JObject obj) \<Rightarrow> typeTag obj \<notin> set recognizedTypes
           | Some _ \<Rightarrow> True))"

subsection \<open>The provider after mounting\<close>

text \<open>The initial values of the provider's state and refs; \<open>key\<close> is what
  \<open>getStoredApiKey\<close> returned.\<close>

definition mounted :: "jsstring option \<Rightarrow> provider" where
  "mounted key =
     \<lparr> apiKey_p = key, connectionState_p = Disconnected, listening_p = False,
       status_p = js ''Disconnected.'', error_p = None, transcriberRef = None,
       pendingConnectRef = False, listenerRef = None, listenerCalls = [] \<rparr>"

subsection \<open>A first start\<close>

text \<open>
  On a new session: \<open>startListening()\<close> is called, capture is granted, the offer is created
  and applied, the signaling exchange succeeds, its body is read, the answer is applied,
  the suspended \<open>startListening\<close> continues, and the data channel (the third resource the
  call created) opens.
\<close>

definition firstStart :: "jsstring \<Rightarrow> jsstring \<Rightarrow> jsstring \<Rightarrow> jsstring \<Rightarrow> input list" where
  "firstStart offer st stText answer =
     [StartListening,
      Settle 1 (Fulfilled Plain),
      Settle 1 (Fulfilled (Text offer)),
      Settle 1 (Fulfilled Plain),
      Settle 1 (Fulfilled (Response True st stText)),
      Settle 1 (Fulfilled (Text answer)),
      Settle 1 (Fulfilled Plain),
      ContinueStartListening,
      ChannelOpen 2]"

text \<open>The order of callbacks the specification gives for this scenario.\<close>

definition specifiedOrder :: "callback list" where
  "specifiedOrder =
     [OnStatus (js ''Requesting microphone.''),
      OnStatus (js ''Building connection.''),
      OnStatus (js ''Exchanging SDP.''),
      OnStatus (js ''Waiting for channel.''),
      OnConnectionStateChange Connected,
      OnStatus (js ''Connected. Configuring.''),
      OnListeningChange True]"

text \<open>The status and connection-state callbacks among \<open>cs\<close>.\<close>

fun statusAndStateCalls :: "callback list \<Rightarrow> callback list" where
  "statusAndStateCalls [] = []"
| "statusAndStateCalls (OnStatus m # cs) = OnStatus m # statusAndStateCalls cs"
| "statusAndStateCalls (OnConnectionStateChange st # cs) =
     OnConnectionStateChange st # statusAndStateCalls cs"
| "statusAndStateCalls (_ # cs) = statusAndStateCalls cs"


subsection \<open>Which call owns which resource\<close>

text \<open>
  The invariant of all runs, over the suspended calls of \<open>connect\<close>, the live token, the
  resources created so far with the token of their creator, the set of released resources
  and the live resources:
  \<^item> no suspended call and no resource carries a token above the live one, and no two
    suspended calls carry the same token;
  \<^item> resources are numbered in the order of their creation, and only created resources are
    released;
  \<^item> a call suspended at \<open>getUserMedia\<close> holds nothing yet; what a suspended call holds it
    has created itself, and it is not released;
  \<^item> a live resource was created by the call that carries the live token, and it is not
    released; while there is a live resource, no suspended call carries the live token;
  \<^item> every resource ever created is released, or live, or held by the suspended call that
    created it.
\<close>

definition own :: "attempt list \<Rightarrow> nat \<Rightarrow> (nat \<times> nat) list \<Rightarrow> nat set \<Rightarrow> nat list \<Rightarrow> bool" where
  "own as ct cr rel lv \<longleftrightarrow>
     (\<forall>a \<in> set as. token a \<le> ct) \<and>
     distinct (map token as) \<and>
     map fst cr = [0..<length cr] \<and>
     (\<forall>r \<in> rel. r < length cr) \<and>
     (\<forall>(r, t) \<in> set cr. t \<le> ct) \<and>
     (\<forall>a \<in> set as.
        (stage a = AwaitGetUserMedia \<longrightarrow> held a = []) \<and>
        (\<forall>r \<in> set (held a). (r, token a) \<in> set cr \<and> r \<notin> rel)) \<and>
     (\<forall>r \<in> set lv. (r, ct) \<in> set cr \<and> r \<notin> rel) \<and>
     (lv \<noteq> [] \<longrightarrow> (\<forall>a \<in> set as. token a \<noteq> ct)) \<and>
     (\<forall>(r, t) \<in> set cr.
        r \<in> rel \<or> r \<in> set lv \<or> (\<exists>a \<in> set as. token a = t \<and> r \<in> set (held a)))"

definition ownership :: "state \<Rightarrow> bool" where
  "ownership s \<longleftrightarrow>
     own (attempts s) (connectToken s) (created s) (set (released s)) (live s)"

text \<open>What resuming a superseded call does: the fields of the session and the callbacks
  invoked stay as they are, the call is gone, and everything it created is released.\<close>

definition staleResume :: "attempt \<Rightarrow> settlement \<Rightarrow> state \<Rightarrow> bool" where
  "staleResume a r s \<longleftrightarrow>
     live (resume a r s) = live s \<and>
     connectionState (resume a r s) = connectionState s \<and>
     listening (resume a r s) = listening s \<and>
     connectToken (resume a r s) = connectToken s \<and>
     calls (resume a r s) = calls s \<and>
     token a \<notin> token ` set (attempts (resume a r s)) \<and>
     (\<forall>(x, t) \<in> set (created (resume a r s)).
        t = token a \<longrightarrow> x \<in> set (released (resume a r s)))"

text \<open>
  The step from \<open>s\<close> to \<open>s'\<close> supersedes every call of \<open>connect\<close> that is suspended in
  \<open>s\<close>: the token is incremented, every such call is still suspended in \<open>s'\<close> with a
  token that is not the live one, and whenever it is resumed from \<open>s'\<close> it releases all it
  created and touches nothing else.
\<close>

definition invalidates :: "state \<Rightarrow> state \<Rightarrow> bool" where
  "invalidates s s' \<longleftrightarrow>
     connectToken s' = connectToken s + 1 \<and>
     (\<forall>a \<in> set (attempts s).
        a \<in> set (attempts s') \<and> token a \<noteq> connectToken s' \<and> (\<forall>r. staleResume a r s'))"

text \<open>
  Supersession in a state: a \<open>connect\<close> issued while the session is Connecting returns at
  once and changes nothing; the ownership invariant holds, so that the live token is the
  greatest token and the only resources not released are the live ones, created under the
  live token, and those still held by suspended calls; a suspended call whose token is
  not the live one releases all it created, touching nothing else, whenever it is resumed;
  \<open>disconnect\<close> supersedes every suspended call and leaves none with the live token; and
  a \<open>connect\<close> on a Disconnected session in a browser supersedes every suspended call and
  adds exactly one call with the live token.
\<close>

definition supersession :: "host \<Rightarrow> state \<Rightarrow> bool" where
  "supersession h s \<longleftrightarrow>
     (connectionState s = Connecting \<longrightarrow> connect h s = Inr s) \<and>
     ownership s \<and>
     (\<forall>a \<in> set (attempts s). token a \<noteq> connectToken s \<longrightarrow> (\<forall>r. staleResume a r s)) \<and>
     invalidates s (disconnect s) \<and>
     attempts (disconnect s) = attempts s \<and>
     (connectionState s = Disconnected \<and> inBrowser h \<and> hasGetUserMedia h \<longrightarrow>
        invalidates s (step h Connect s) \<and>
        map token (filter (\<lambda>a. token a = connectToken (step h Connect s))
                     (attempts (step h Connect s)))
          = [connectToken (step h Connect s)])"

text \<open>Two states agree on everything the ownership invariant reads.\<close>

definition sameView :: "state \<Rightarrow> state \<Rightarrow> bool" where
  "sameView s s' \<longleftrightarrow>
     attempts s' = attempts s \<and> connectToken s' = connectToken s \<and>
     created s' = created s \<and> released s' = released s \<and>
     mediaStream s' = mediaStream s \<and> pc s' = pc s \<and> dc s' = dc s"

subsection \<open>Two runs with a second connect\<close>

text \<open>\<open>connect()\<close> twice in a row, after which the promises awaited by the first call are
  fulfilled one after the other.\<close>

definition connectTwice :: "input list" where
  "connectTwice =
     [Connect, Connect,
      Settle 1 (Fulfilled Plain),
      Settle 1 (Fulfilled (Text (js ''offer''))),
      Settle 1 (Fulfilled Plain),
      Settle 1 (Fulfilled (Response True (js ''201'') (js ''Created''))),
      Settle 1 (Fulfilled (Text (js ''answer''))),
      Settle 1 (Fulfilled Plain)]"

text \<open>\<open>connect()\<close>, capture granted, then \<open>disconnect()\<close> and \<open>connect()\<close> again while the
  first call is suspended at \<open>createOffer\<close>. The first call carries token 1, the second
  token 3.\<close>

definition reconnectEarly :: "input list" where
  "reconnectEarly = [Connect, Settle 1 (Fulfilled Plain), Disconnect, Connect]"

text \<open>\<open>connect()\<close> and capture granted: the call is suspended at \<open>createOffer\<close>.\<close>

definition connectGranted :: "input list" where
  "connectGranted = [Connect, Settle 1 (Fulfilled Plain)]"

definition firstCall :: attempt where
  "firstCall =
     \<lparr>token = 1, stage = AwaitCreateOffer, localStream = Some 0, localPc = Some 1,
      localDc = Some 2, offerSdp = [], awaited = False\<rparr>"

text \<open>\<open>connect()\<close> whose signaling exchange is answered with \<open>401 Unauthorized\<close>.\<close>

definition exchangeRefused :: "input list" where
  "exchangeRefused =
     [Connect,
      Settle 1 (Fulfilled Plain),
      Settle 1 (Fulfilled (Text (js ''offer''))),
      Settle 1 (Fulfilled Plain),
      Settle 1 (Fulfilled (Response False (js ''401'') (js ''Unauthorized'')))]"


section \<open>Strings\<close>

lemma dropWhile_keeps:
  assumes "xs \<noteq> []" "\<not> P (hd xs)"
  shows "dropWhile P xs = xs"
  using assms by (cases xs) auto

lemma dropWhile_Nil_all:
  assumes "dropWhile P xs = []"
  shows "\<forall>x \<in> set xs. P x"
  using assms by (induction xs) (auto split: if_splits)

lemma all_dropWhile_imp_all:
  assumes "\<forall>x \<in> set (dropWhile P xs). P x"
  shows "\<forall>x \<in> set xs. P x"
proof -
  have "dropWhile P xs = []"
  proof (rule ccontr)
    assume n: "dropWhile P xs \<noteq> []"
    then have "\<not> P (hd (dropWhile P xs))"
      by (rule hd_dropWhile)
    moreover have "hd (dropWhile P xs) \<in> set (dropWhile P xs)"
      using n by (rule hd_in_set)
    ultimately show False using assms by blast
  qed
  then show ?thesis
    by (rule dropWhile_Nil_all)
qed

lemma trim_empty_iff: "trim s = [] \<longleftrightarrow> (\<forall>u \<in> set s. is_white_space u)"
proof
  assume "trim s = []"
  then have "dropWhile is_white_space (rev (dropWhile is_white_space s)) = []"
    unfolding trim_def by simp
  then have "\<forall>x \<in> set (rev (dropWhile is_white_space s)). is_white_space x"
    by (rule dropWhile_Nil_all)
  then have "\<forall>x \<in> set (dropWhile is_white_space s). is_white_space x"
    unfolding set_rev .
  then show "\<forall>u \<in> set s. is_white_space u"
    by (rule all_dropWhile_imp_all)
next
  assume "\<forall>u \<in> set s. is_white_space u"
  then have "dropWhile is_white_space s = []"
    by (induction s) auto
  then show "trim s = []"
    unfolding trim_def by (simp only: rev.simps dropWhile.simps)
qed

lemma trim_unchanged:
  assumes "s \<noteq> []" "\<not> is_white_space (hd s)" "\<not> is_white_space (last s)"
  shows "trim s = s"
proof -
  have 1: "dropWhile is_white_space s = s"
    using assms by (simp add: dropWhile_keeps)
  have "rev s \<noteq> []" using assms by simp
  moreover have "hd (rev s) = last s" using assms by (simp add: hd_rev)
  ultimately have 2: "dropWhile is_white_space (rev s) = rev s"
    using assms by (simp add: dropWhile_keeps)
  show ?thesis by (simp add: trim_def 1 2)
qed

lemma status_Ready: "status (js ''Ready.'') s = emit (OnStatus (js ''Ready.'')) s"
  by (simp add: status_def trim_def js_def is_white_space_def Let_def)

section \<open>Construction\<close>

text \<open>
  Claim C10. Constructing a session with a credential that is empty or consists only of white
  space throws: the result is the error, no instance exists and so no callback can have been
  invoked. Constructing it with a credential that contains a code unit that is not white
  space succeeds, and the new instance has invoked no callback.
\<close>

theorem constructor_key:
  "(if \<forall>u \<in> set key. is_white_space u
    then new_RealtimeTranscriber key
           = Inl (js ''API key is required to initialise RealtimeTranscriber'')
    else new_RealtimeTranscriber key = Inr (initial key) \<and> calls (initial key) = [])"
  by (simp add: new_RealtimeTranscriber_def trim_empty_iff initial_def)

theorem constructor_key_witness:
  "new_RealtimeTranscriber [0x20, 0x09, 0x3000]
     = Inl (js ''API key is required to initialise RealtimeTranscriber'')
   \<and> new_RealtimeTranscriber (js '' sk-1 '') = Inr (initial (js '' sk-1 ''))"
  using constructor_key [of "[0x20, 0x09, 0x3000]"] constructor_key [of "js '' sk-1 ''"]
  by (simp add: is_white_space_def js_def)

section \<open>Transcript reconciliation\<close>

lemma calls_fold_delta:
  assumes "i \<noteq> []"
  shows "calls (fold (handleTranscriptDelta (Some i)) ds s) = calls s @ map OnTranscriptDelta ds"
  using assms by (induction ds arbitrary: s) (simp_all add: handleTranscriptDelta_def emit_def Let_def)

lemma active_fold_delta:
  assumes "i \<noteq> []" "ds \<noteq> []"
  shows "activeTranscriptId (fold (handleTranscriptDelta (Some i)) ds s) = Some i"
  using assms
proof (induction ds arbitrary: s)
  case Nil then show ?case by simp
next
  case (Cons d ds)
  show ?case
  proof (cases "ds = []")
    case True
    then show ?thesis using Cons.prems by (simp add: handleTranscriptDelta_def emit_def Let_def)
  next
    case False
    then show ?thesis using Cons by simp
  qed
qed

lemma partial_fold_delta_same:
  assumes "i \<noteq> []" "activeTranscriptId s = Some i"
  shows "currentPartial (fold (handleTranscriptDelta (Some i)) ds s) = currentPartial s @ concat ds"
  using assms
  by (induction ds arbitrary: s) (simp_all add: handleTranscriptDelta_def emit_def Let_def)

lemma partial_fold_delta:
  assumes "i \<noteq> []" "currentPartial s = [] \<or> (ds \<noteq> [] \<and> activeTranscriptId s \<noteq> Some i)"
  shows "currentPartial (fold (handleTranscriptDelta (Some i)) ds s) = concat ds"
proof (cases ds)
  case Nil
  then show ?thesis using assms by simp
next
  case (Cons d ds')
  let ?s1 = "handleTranscriptDelta (Some i) d s"
  have a: "activeTranscriptId ?s1 = Some i"
    using assms(1) by (simp add: handleTranscriptDelta_def emit_def Let_def)
  have p: "currentPartial ?s1 = d"
    using assms Cons by (auto simp add: handleTranscriptDelta_def emit_def Let_def)
  show ?thesis
    using partial_fold_delta_same [OF assms(1) a, of ds'] p Cons by simp
qed

lemma complete_calls:
  assumes "i \<noteq> []"
  shows "calls (handleTranscriptComplete (Some i) F s) =
           calls s
           @ (if length (currentPartial s) < length F
              then [OnTranscriptDelta (drop (length (currentPartial s)) F)] else [])
           @ (if F \<noteq> [] then [OnTranscriptFinal F] else [])
           @ [OnStatus (js ''Ready.'')]"
  using assms by (auto simp add: handleTranscriptComplete_def emit_def Let_def status_Ready)

lemma deltaPayloads_append [simp]:
  "deltaPayloads (xs @ ys) = deltaPayloads xs @ deltaPayloads ys"
  by (induction xs rule: deltaPayloads.induct) simp_all

lemma finalPayloads_append [simp]:
  "finalPayloads (xs @ ys) = finalPayloads xs @ finalPayloads ys"
  by (induction xs rule: finalPayloads.induct) simp_all

lemma deltaPayloads_map [simp]: "deltaPayloads (map OnTranscriptDelta ds) = ds"
  by (induction ds) simp_all

lemma finalPayloads_map [simp]: "finalPayloads (map OnTranscriptDelta ds) = []"
  by (induction ds) simp_all

lemma reconcile_calls:
  assumes "i \<noteq> []"
    and "currentPartial s = [] \<or> (ds \<noteq> [] \<and> activeTranscriptId s \<noteq> Some i)"
  shows "calls (reconcile i ds (concat ds @ rest) s) =
           calls s @ map OnTranscriptDelta ds
           @ (if rest \<noteq> [] then [OnTranscriptDelta rest] else [])
           @ (if concat ds @ rest \<noteq> [] then [OnTranscriptFinal (concat ds @ rest)] else [])
           @ [OnStatus (js ''Ready.'')]"
  unfolding reconcile_def
  by (simp add: complete_calls [OF assms(1)] partial_fold_delta [OF assms] calls_fold_delta [OF assms(1)])

lemma empty_final_calls:
  assumes "i \<noteq> []"
  shows "calls (reconcile i es [] t) =
           calls t @ map OnTranscriptDelta es @ [OnStatus (js ''Ready.'')]"
  unfolding reconcile_def
  by (simp add: complete_calls [OF assms] calls_fold_delta [OF assms])

text \<open>
  Claim C1, amended. Let the item id \<open>i\<close> be non-empty, let the final text start with the
  concatenation of the deltas \<open>ds\<close> of item \<open>i\<close>, and let the reconciler hold no partial
  text of another item when the final event arrives (its partial text is empty at the
  start, or there is a delta and the active item is another one, so that the first delta
  resets it). Then the payloads passed to the delta callback, from the first delta up to and
  including the final event, concatenate to the final text; and the final callback is
  invoked exactly once, with the final text, when the final text is not empty, and not at
  all when it is empty. Indeed a final event with the empty text never invokes the final
  callback, whatever the state \<open>t\<close> before and the deltas \<open>es\<close> of the item were.
\<close>

theorem gap_free_reconstruction:
  assumes "i \<noteq> []"
    and "currentPartial s = [] \<or> (ds \<noteq> [] \<and> activeTranscriptId s \<noteq> Some i)"
  shows "concat (deltaPayloads (callsSince s (reconcile i ds (concat ds @ rest) s)))
           = concat ds @ rest
         \<and> finalPayloads (callsSince s (reconcile i ds (concat ds @ rest) s))
           = (if concat ds @ rest = [] then [] else [concat ds @ rest])
         \<and> (concat ds @ rest \<noteq> [] \<longrightarrow> gapFreeExactlyOnce i ds (concat ds @ rest) s)
         \<and> finalPayloads (callsSince t (reconcile i es [] t)) = []"
proof -
  have d: "concat (deltaPayloads (callsSince s (reconcile i ds (concat ds @ rest) s)))
           = concat ds @ rest"
    by (simp add: callsSince_def reconcile_calls [OF assms])
  have f: "finalPayloads (callsSince s (reconcile i ds (concat ds @ rest) s))
           = (if concat ds @ rest = [] then [] else [concat ds @ rest])"
    by (simp add: callsSince_def reconcile_calls [OF assms])
  have g: "concat ds @ rest \<noteq> [] \<longrightarrow> gapFreeExactlyOnce i ds (concat ds @ rest) s"
    using d f by (simp add: gapFreeExactlyOnce_def)
  have e: "finalPayloads (callsSince t (reconcile i es [] t)) = []"
    by (simp add: callsSince_def empty_final_calls [OF assms(1)])
  show ?thesis using d f g e by blast
qed

theorem gap_free_reconstruction_witness:
  "gapFreeExactlyOnce (js ''it1'') [js ''Hel'', js ''lo ''] (js ''Hello world'') (initial (js ''sk''))
   \<and> finalPayloads (callsSince (initial (js ''sk''))
         (reconcile (js ''it1'') [] [] (initial (js ''sk'')))) = []"
  using gap_free_reconstruction [of "js ''it1''" "initial (js ''sk'')" "[js ''Hel'', js ''lo '']"
      "js ''world''" "initial (js ''sk'')" "[]"]
  by (simp add: js_def initial_def)

text \<open>
  Claim C1 as stated fails in two ways. With no deltas and the final text \<open>""\<close> the
  concatenation of the deltas is a prefix of the final text, and the final callback is not
  invoked at all (\<open>if (finalText)\<close> guards it). And when the partial text \<open>Hello\<close> of
  item \<open>it1\<close> is still pending, the final event \<open>Good morning\<close> of item \<open>it2\<close>, which
  had no deltas, passes only \<open>morning\<close> to the delta callback.
\<close>

theorem gap_free_counterexample:
  "\<not> gapFreeExactlyOnce (js ''it1'') [] [] (initial (js ''sk''))
   \<and> \<not> gapFreeExactlyOnce (js ''it2'') [] (js ''Good morning'')
         (handleTranscriptDelta (Some (js ''it1'')) (js ''Hello'') (initial (js ''sk'')))"
proof -
  have 1: "\<not> gapFreeExactlyOnce (js ''it1'') [] [] (initial (js ''sk''))"
    by (simp add: gapFreeExactlyOnce_def reconcile_def callsSince_def handleTranscriptComplete_def
        initial_def emit_def js_def Let_def status_def trim_def is_white_space_def)
  have n: "js ''it2'' \<noteq> []" by (simp add: js_def)
  have "deltaPayloads (callsSince (handleTranscriptDelta (Some (js ''it1'')) (js ''Hello'') (initial (js ''sk'')))
          (reconcile (js ''it2'') [] (js ''Good morning'')
            (handleTranscriptDelta (Some (js ''it1'')) (js ''Hello'') (initial (js ''sk'')))))
        = [js ''morning'']"
    by (simp add: reconcile_def callsSince_def complete_calls [OF n])
      (simp add: handleTranscriptDelta_def initial_def emit_def Let_def js_def)
  then have 2: "\<not> gapFreeExactlyOnce (js ''it2'') [] (js ''Good morning'')
         (handleTranscriptDelta (Some (js ''it1'')) (js ''Hello'') (initial (js ''sk'')))"
    by (simp add: gapFreeExactlyOnce_def js_def)
  show ?thesis using 1 2 by blast
qed

text \<open>
  Claim C9. When the completed event of item \<open>i\<close> arrives while another item (or none) is
  active, the partial text is not reset before the suffix is computed: what the delta
  callback receives is the final text without its first \<open>length (currentPartial s)\<close> code
  units, and nothing when the final text is not longer than that. The instance after it
  shows a delta that lost its first five code units and a delta that was suppressed.
\<close>

theorem final_for_other_item_keeps_partial:
  assumes "i \<noteq> []" and "activeTranscriptId s \<noteq> Some i"
  shows "deltaPayloads (callsSince s (handleTranscriptComplete (Some i) F s)) =
           (if length (currentPartial s) < length F
            then [drop (length (currentPartial s)) F] else [])"
  by (simp add: callsSince_def complete_calls [OF assms(1)])

theorem final_for_other_item_keeps_partial_witness:
  "deltaPayloads (callsSince (handleTranscriptDelta (Some (js ''it1'')) (js ''Hello'') (initial (js ''sk'')))
      (handleTranscriptComplete (Some (js ''it2'')) (js ''Good morning'')
         (handleTranscriptDelta (Some (js ''it1'')) (js ''Hello'') (initial (js ''sk'')))))
     = [js ''morning'']
   \<and> deltaPayloads (callsSince (handleTranscriptDelta (Some (js ''it1'')) (js ''Hello'') (initial (js ''sk'')))
      (handleTranscriptComplete (Some (js ''it2'')) (js ''Bye'')
         (handleTranscriptDelta (Some (js ''it1'')) (js ''Hello'') (initial (js ''sk'')))))
     = []"
  using final_for_other_item_keeps_partial [of "js ''it2''"
      "handleTranscriptDelta (Some (js ''it1'')) (js ''Hello'') (initial (js ''sk''))" "js ''Good morning''"]
    final_for_other_item_keeps_partial [of "js ''it2''"
      "handleTranscriptDelta (Some (js ''it1'')) (js ''Hello'') (initial (js ''sk''))" "js ''Bye''"]
  by (simp add: js_def handleTranscriptDelta_def initial_def emit_def Let_def)

section \<open>Ownership of resources\<close>

lemma ownI:
  assumes "\<And>a. a \<in> set as \<Longrightarrow> token a \<le> ct"
    and "distinct (map token as)"
    and "map fst cr = [0..<length cr]"
    and "\<And>r. r \<in> rel \<Longrightarrow> r < length cr"
    and "\<And>r t. (r, t) \<in> set cr \<Longrightarrow> t \<le> ct"
    and "\<And>a. a \<in> set as \<Longrightarrow> stage a = AwaitGetUserMedia \<Longrightarrow> held a = []"
    and "\<And>a r. a \<in> set as \<Longrightarrow> r \<in> set (held a) \<Longrightarrow> (r, token a) \<in> set cr \<and> r \<notin> rel"
    and "\<And>r. r \<in> set lv \<Longrightarrow> (r, ct) \<in> set cr \<and> r \<notin> rel"
    and "\<And>a. lv \<noteq> [] \<Longrightarrow> a \<in> set as \<Longrightarrow> token a \<noteq> ct"
    and "\<And>r t. (r, t) \<in> set cr \<Longrightarrow>
           r \<in> rel \<or> r \<in> set lv \<or> (\<exists>a \<in> set as. token a = t \<and> r \<in> set (held a))"
  shows "own as ct cr rel lv"
proof -
  have 1: "\<forall>a \<in> set as. token a \<le> ct"
    using assms(1) by blast
  have 4: "\<forall>(r, t) \<in> set cr. t \<le> ct"
  proof
    fix x assume "x \<in> set cr"
    then have "(fst x, snd x) \<in> set cr" by simp
    from assms(5) [OF this] show "case x of (r, t) \<Rightarrow> t \<le> ct"
      by (simp add: case_prod_unfold)
  qed
  have 5: "\<forall>a \<in> set as.
        (stage a = AwaitGetUserMedia \<longrightarrow> held a = []) \<and>
        (\<forall>r \<in> set (held a). (r, token a) \<in> set cr \<and> r \<notin> rel)"
    using assms(6,7) by blast
  have 6: "\<forall>r \<in> set lv. (r, ct) \<in> set cr \<and> r \<notin> rel"
    using assms(8) by blast
  have 7: "lv \<noteq> [] \<longrightarrow> (\<forall>a \<in> set as. token a \<noteq> ct)"
    using assms(9) by blast
  have 8: "\<forall>(r, t) \<in> set cr.
        r \<in> rel \<or> r \<in> set lv \<or> (\<exists>a \<in> set as. token a = t \<and> r \<in> set (held a))"
  proof
    fix x assume "x \<in> set cr"
    then have "(fst x, snd x) \<in> set cr" by simp
    from assms(10) [OF this]
    show "case x of (r, t) \<Rightarrow>
        r \<in> rel \<or> r \<in> set lv \<or> (\<exists>a \<in> set as. token a = t \<and> r \<in> set (held a))"
      by (simp add: case_prod_unfold)
  qed
  have 3: "\<forall>r \<in> rel. r < length cr"
    using assms(4) by blast
  show ?thesis
    unfolding own_def
    by (intro conjI)
      (fact 1, fact assms(2), fact assms(3), fact 3, fact 4, fact 5, fact 6, fact 7, fact 8)
qed

lemma own_le: "own as ct cr rel lv \<Longrightarrow> a \<in> set as \<Longrightarrow> token a \<le> ct"
  unfolding own_def by (elim conjE) (erule bspec)

lemma own_distinct: "own as ct cr rel lv \<Longrightarrow> distinct (map token as)"
  unfolding own_def by (elim conjE)

lemma own_numbered: "own as ct cr rel lv \<Longrightarrow> map fst cr = [0..<length cr]"
  unfolding own_def by (elim conjE)

lemma own_released: "own as ct cr rel lv \<Longrightarrow> r \<in> rel \<Longrightarrow> r < length cr"
  unfolding own_def by (elim conjE) (drule (1) bspec, simp)

lemma own_created_le: "own as ct cr rel lv \<Longrightarrow> (r, t) \<in> set cr \<Longrightarrow> t \<le> ct"
  unfolding own_def by (elim conjE) (drule (1) bspec, simp)

lemma own_stage:
  "own as ct cr rel lv \<Longrightarrow> a \<in> set as \<Longrightarrow> stage a = AwaitGetUserMedia \<Longrightarrow> held a = []"
  unfolding own_def by (elim conjE) (drule (1) bspec, simp)

lemma own_held:
  "own as ct cr rel lv \<Longrightarrow> a \<in> set as \<Longrightarrow> r \<in> set (held a)
     \<Longrightarrow> (r, token a) \<in> set cr \<and> r \<notin> rel"
  unfolding own_def by (elim conjE) (drule (1) bspec, simp)

lemma own_live: "own as ct cr rel lv \<Longrightarrow> r \<in> set lv \<Longrightarrow> (r, ct) \<in> set cr \<and> r \<notin> rel"
  unfolding own_def by (elim conjE) (drule (1) bspec, simp)

lemma own_current: "own as ct cr rel lv \<Longrightarrow> lv \<noteq> [] \<Longrightarrow> a \<in> set as \<Longrightarrow> token a \<noteq> ct"
  unfolding own_def by (elim conjE) (drule (1) mp, drule (1) bspec, simp)

lemma own_all:
  "own as ct cr rel lv \<Longrightarrow> (r, t) \<in> set cr \<Longrightarrow>
     r \<in> rel \<or> r \<in> set lv \<or> (\<exists>a \<in> set as. token a = t \<and> r \<in> set (held a))"
  unfolding own_def by (elim conjE) (drule (1) bspec, simp)

lemma created_functional:
  assumes "map fst cr = [0..<length cr]" "(r, t) \<in> set cr" "(r, t') \<in> set cr"
  shows "t = t'"
proof -
  have "distinct (map fst cr)" using assms(1) by simp
  then show ?thesis using assms(2,3) by (rule eq_key_imp_eq_value)
qed

lemma created_bound:
  assumes "map fst cr = [0..<length cr]" "(r, t) \<in> set cr"
  shows "r < length cr"
proof -
  have "fst (r, t) \<in> fst ` set cr" using assms(2) by (rule imageI)
  then have "r \<in> set (map fst cr)" by simp
  then show ?thesis using assms(1) by simp
qed

lemma token_inj:
  assumes "distinct (map token as)" "a \<in> set as" "b \<in> set as" "token a = token b"
  shows "a = b"
proof -
  have "inj_on token (set as)" using assms(1) by (simp add: distinct_map)
  then show ?thesis using assms(2,3,4) by (simp add: inj_on_def)
qed

lemma own_token_inj:
  assumes "own as ct cr rel lv" "a \<in> set as" "b \<in> set as" "token a = token b"
  shows "a = b"
  using token_inj [OF own_distinct [OF assms(1)] assms(2,3,4)] .

lemma own_no_live_when_current:
  assumes "own as ct cr rel lv" "a \<in> set as" "token a = ct"
  shows "lv = []"
  using own_current [OF assms(1) _ assms(2)] assms(3) by blast

lemma own_held_not_live:
  assumes "own as ct cr rel lv" "a \<in> set as" "r \<in> set (held a)"
  shows "r \<notin> set lv"
proof
  assume l: "r \<in> set lv"
  have 1: "(r, token a) \<in> set cr" using own_held [OF assms] by simp
  have 2: "(r, ct) \<in> set cr" using own_live [OF assms(1) l] by simp
  have "token a = ct" using created_functional [OF own_numbered [OF assms(1)] 1 2] .
  then have "lv = []" using own_no_live_when_current [OF assms(1,2)] by simp
  then show False using l by simp
qed

lemma own_held_disjoint:
  assumes "own as ct cr rel lv" "a \<in> set as" "b \<in> set as"
    and "r \<in> set (held a)" "r \<in> set (held b)"
  shows "a = b"
proof -
  have 1: "(r, token a) \<in> set cr" using own_held [OF assms(1,2,4)] by simp
  have 2: "(r, token b) \<in> set cr" using own_held [OF assms(1,3,5)] by simp
  have "token a = token b" using created_functional [OF own_numbered [OF assms(1)] 1 2] .
  then show ?thesis using own_token_inj [OF assms(1,2,3)] by simp
qed

text \<open>Releasing the live resources, with or without a greater token.\<close>

lemma own_bump:
  assumes o: "own as ct cr rel lv" and le: "ct \<le> ct'"
  shows "own as ct' cr (rel \<union> set lv) []"
proof (rule ownI)
  fix a assume "a \<in> set as"
  then show "token a \<le> ct'" using own_le [OF o] le by fastforce
next
  show "distinct (map token as)" by (rule own_distinct [OF o])
next
  show "map fst cr = [0..<length cr]" by (rule own_numbered [OF o])
next
  fix r assume "r \<in> rel \<union> set lv"
  then show "r < length cr"
    using own_released [OF o] own_live [OF o] created_bound [OF own_numbered [OF o]] by blast
next
  fix r t assume "(r, t) \<in> set cr"
  then show "t \<le> ct'" using own_created_le [OF o] le by fastforce
next
  fix a assume "a \<in> set as" "stage a = AwaitGetUserMedia"
  then show "held a = []" by (rule own_stage [OF o])
next
  fix a r assume "a \<in> set as" "r \<in> set (held a)"
  then show "(r, token a) \<in> set cr \<and> r \<notin> rel \<union> set lv"
    using own_held [OF o] own_held_not_live [OF o] by blast
next
  fix r :: nat assume "r \<in> set []"
  then show "(r, ct') \<in> set cr \<and> r \<notin> rel \<union> set lv" by simp
next
  fix a :: attempt assume "[] \<noteq> ([] :: nat list)"
  then show "token a \<noteq> ct'" by simp
next
  fix r t assume "(r, t) \<in> set cr"
  then show "r \<in> rel \<union> set lv \<or> r \<in> set [] \<or>
      (\<exists>a \<in> set as. token a = t \<and> r \<in> set (held a))"
    using own_all [OF o] by blast
qed

text \<open>A new call of \<open>connect\<close>, which carries the live token and holds nothing.\<close>

lemma own_new_attempt:
  assumes o: "own as ct cr rel []" and lt: "\<And>a. a \<in> set as \<Longrightarrow> token a < ct"
    and n: "token n = ct" "held n = []"
  shows "own (as @ [n]) ct cr rel []"
proof (rule ownI)
  fix a assume "a \<in> set (as @ [n])"
  then show "token a \<le> ct" using own_le [OF o] n by auto
next
  have "token n \<notin> token ` set as" using lt n by fastforce
  then show "distinct (map token (as @ [n]))" using own_distinct [OF o] by simp
next
  show "map fst cr = [0..<length cr]" by (rule own_numbered [OF o])
next
  fix r assume "r \<in> rel"
  then show "r < length cr" by (rule own_released [OF o])
next
  fix r t assume "(r, t) \<in> set cr"
  then show "t \<le> ct" by (rule own_created_le [OF o])
next
  fix a assume "a \<in> set (as @ [n])" "stage a = AwaitGetUserMedia"
  then show "held a = []" using own_stage [OF o] n by auto
next
  fix a r assume "a \<in> set (as @ [n])" "r \<in> set (held a)"
  then show "(r, token a) \<in> set cr \<and> r \<notin> rel" using own_held [OF o] n by auto
next
  fix r :: nat assume "r \<in> set []"
  then show "(r, ct) \<in> set cr \<and> r \<notin> rel" by simp
next
  fix a :: attempt assume "[] \<noteq> ([] :: nat list)"
  then show "token a \<noteq> ct" by simp
next
  fix r t assume "(r, t) \<in> set cr"
  then have "r \<in> rel \<or> r \<in> set [] \<or> (\<exists>a \<in> set as. token a = t \<and> r \<in> set (held a))"
    by (rule own_all [OF o])
  then show "r \<in> rel \<or> r \<in> set [] \<or>
      (\<exists>a \<in> set (as @ [n]). token a = t \<and> r \<in> set (held a))"
    by auto
qed

text \<open>A suspended call releases what it holds and returns.\<close>

lemma own_release_attempt:
  assumes o: "own as ct cr rel lv" and a: "a \<in> set as"
  shows "own (filter (\<lambda>b. token b \<noteq> token a) as) ct cr (rel \<union> set (held a)) lv"
proof (rule ownI)
  fix b assume "b \<in> set (filter (\<lambda>b. token b \<noteq> token a) as)"
  then show "token b \<le> ct" using own_le [OF o] by simp
next
  show "distinct (map token (filter (\<lambda>b. token b \<noteq> token a) as))"
    using own_distinct [OF o] by (rule distinct_map_filter)
next
  show "map fst cr = [0..<length cr]" by (rule own_numbered [OF o])
next
  fix r assume "r \<in> rel \<union> set (held a)"
  then show "r < length cr"
    using own_released [OF o] own_held [OF o a] created_bound [OF own_numbered [OF o]] by blast
next
  fix r t assume "(r, t) \<in> set cr"
  then show "t \<le> ct" by (rule own_created_le [OF o])
next
  fix b assume "b \<in> set (filter (\<lambda>b. token b \<noteq> token a) as)" "stage b = AwaitGetUserMedia"
  then show "held b = []" using own_stage [OF o] by simp
next
  fix b r assume b: "b \<in> set (filter (\<lambda>b. token b \<noteq> token a) as)" and r: "r \<in> set (held b)"
  have bs: "b \<in> set as" and ne: "token b \<noteq> token a" using b by simp_all
  have "r \<notin> set (held a)" using own_held_disjoint [OF o bs a r] ne by blast
  then show "(r, token b) \<in> set cr \<and> r \<notin> rel \<union> set (held a)"
    using own_held [OF o bs r] by simp
next
  fix r assume r: "r \<in> set lv"
  have "r \<notin> set (held a)" using own_held_not_live [OF o a] r by blast
  then show "(r, ct) \<in> set cr \<and> r \<notin> rel \<union> set (held a)"
    using own_live [OF o r] by simp
next
  fix b assume "lv \<noteq> []" "b \<in> set (filter (\<lambda>b. token b \<noteq> token a) as)"
  then show "token b \<noteq> ct" using own_current [OF o] by simp
next
  fix r t assume c: "(r, t) \<in> set cr"
  show "r \<in> rel \<union> set (held a) \<or> r \<in> set lv \<or>
      (\<exists>b \<in> set (filter (\<lambda>b. token b \<noteq> token a) as). token b = t \<and> r \<in> set (held b))"
  proof (cases "r \<in> rel \<or> r \<in> set lv")
    case True
    then show ?thesis by blast
  next
    case False
    then obtain b where b: "b \<in> set as" "token b = t" "r \<in> set (held b)"
      using own_all [OF o c] by blast
    show ?thesis
    proof (cases "token b = token a")
      case True
      then have "b = a" using own_token_inj [OF o b(1) a] by simp
      then show ?thesis using b by simp
    next
      case False
      then show ?thesis using b by auto
    qed
  qed
qed

text \<open>A resource that is created and released at once.\<close>

lemma own_add_released:
  assumes o: "own as ct cr rel lv" and t: "t \<le> ct"
  shows "own as ct (cr @ [(length cr, t)]) (rel \<union> {length cr}) lv"
proof (rule ownI)
  fix a assume "a \<in> set as"
  then show "token a \<le> ct" by (rule own_le [OF o])
next
  show "distinct (map token as)" by (rule own_distinct [OF o])
next
  show "map fst (cr @ [(length cr, t)]) = [0..<length (cr @ [(length cr, t)])]"
    using own_numbered [OF o] by simp
next
  fix r assume "r \<in> rel \<union> {length cr}"
  then show "r < length (cr @ [(length cr, t)])" using own_released [OF o] by fastforce
next
  fix r u assume "(r, u) \<in> set (cr @ [(length cr, t)])"
  then show "u \<le> ct" using own_created_le [OF o] t by auto
next
  fix a assume "a \<in> set as" "stage a = AwaitGetUserMedia"
  then show "held a = []" by (rule own_stage [OF o])
next
  fix a r assume ar: "a \<in> set as" "r \<in> set (held a)"
  have 1: "(r, token a) \<in> set cr \<and> r \<notin> rel" by (rule own_held [OF o ar])
  then have "r < length cr" using created_bound [OF own_numbered [OF o]] by blast
  then show "(r, token a) \<in> set (cr @ [(length cr, t)]) \<and> r \<notin> rel \<union> {length cr}"
    using 1 by simp
next
  fix r assume r: "r \<in> set lv"
  have 1: "(r, ct) \<in> set cr \<and> r \<notin> rel" by (rule own_live [OF o r])
  then have "r < length cr" using created_bound [OF own_numbered [OF o]] by blast
  then show "(r, ct) \<in> set (cr @ [(length cr, t)]) \<and> r \<notin> rel \<union> {length cr}"
    using 1 by simp
next
  fix a assume "lv \<noteq> []" "a \<in> set as"
  then show "token a \<noteq> ct" by (rule own_current [OF o])
next
  fix r u assume "(r, u) \<in> set (cr @ [(length cr, t)])"
  then show "r \<in> rel \<union> {length cr} \<or> r \<in> set lv \<or>
      (\<exists>a \<in> set as. token a = u \<and> r \<in> set (held a))"
    using own_all [OF o] by auto
qed

text \<open>The locals of suspended calls change, but neither their tokens nor what they hold.\<close>

lemma own_map_same:
  assumes o: "own as ct cr rel lv"
    and f: "\<And>b. b \<in> set as \<Longrightarrow> token (f b) = token b \<and> held (f b) = held b \<and>
              (stage (f b) = AwaitGetUserMedia \<longrightarrow> held b = [])"
  shows "own (map f as) ct cr rel lv"
proof (rule ownI)
  fix a assume "a \<in> set (map f as)"
  then obtain b where "b \<in> set as" "a = f b" by auto
  then show "token a \<le> ct" using own_le [OF o] f by simp
next
  have "map token (map f as) = map token as"
    unfolding map_map by (rule map_cong) (simp_all add: f)
  then show "distinct (map token (map f as))" using own_distinct [OF o] by (simp only:)
next
  show "map fst cr = [0..<length cr]" by (rule own_numbered [OF o])
next
  fix r assume "r \<in> rel"
  then show "r < length cr" by (rule own_released [OF o])
next
  fix r t assume "(r, t) \<in> set cr"
  then show "t \<le> ct" by (rule own_created_le [OF o])
next
  fix a assume "a \<in> set (map f as)" "stage a = AwaitGetUserMedia"
  then obtain b where "b \<in> set as" "a = f b" "stage (f b) = AwaitGetUserMedia" by auto
  then show "held a = []" using f by simp
next
  fix a r assume "a \<in> set (map f as)" "r \<in> set (held a)"
  then obtain b where "b \<in> set as" "a = f b" "r \<in> set (held (f b))" by auto
  then show "(r, token a) \<in> set cr \<and> r \<notin> rel" using own_held [OF o, of b r] f by simp
next
  fix r assume "r \<in> set lv"
  then show "(r, ct) \<in> set cr \<and> r \<notin> rel" by (rule own_live [OF o])
next
  fix a assume l: "lv \<noteq> []" and "a \<in> set (map f as)"
  then obtain b where "b \<in> set as" "a = f b" by auto
  then show "token a \<noteq> ct" using own_current [OF o l, of b] f by simp
next
  fix r t assume c: "(r, t) \<in> set cr"
  show "r \<in> rel \<or> r \<in> set lv \<or> (\<exists>a \<in> set (map f as). token a = t \<and> r \<in> set (held a))"
  proof (cases "r \<in> rel \<or> r \<in> set lv")
    case True
    then show ?thesis by blast
  next
    case False
    then obtain b where b: "b \<in> set as" "token b = t" "r \<in> set (held b)"
      using own_all [OF o c] by blast
    then have "f b \<in> set (map f as) \<and> token (f b) = t \<and> r \<in> set (held (f b))"
      using f by simp
    then show ?thesis by blast
  qed
qed

text \<open>A suspended call that holds nothing creates its stream, peer and channel and keeps
  them.\<close>

lemma own_create3:
  assumes o: "own as ct cr rel lv" and a: "a \<in> set as" and e: "held a = []"
    and a': "token a' = token a" "held a' = [length cr, Suc (length cr), Suc (Suc (length cr))]"
      "stage a' \<noteq> AwaitGetUserMedia"
  shows "own (map (\<lambda>b. if token b = token a then a' else b) as) ct
           (cr @ [(length cr, token a), (Suc (length cr), token a), (Suc (Suc (length cr)), token a)])
           rel lv"
    (is "own (map ?f as) ct ?cr rel lv")
proof (rule ownI)
  fix x assume "x \<in> set (map ?f as)"
  then obtain b where b: "b \<in> set as" "x = ?f b" by auto
  then show "token x \<le> ct" using own_le [OF o b(1)] a' by simp
next
  have "map token (map ?f as) = map token as"
    unfolding map_map by (rule map_cong) (simp_all add: a')
  then show "distinct (map token (map ?f as))" using own_distinct [OF o] by (simp only:)
next
  show "map fst ?cr = [0..<length ?cr]" using own_numbered [OF o] by simp
next
  fix r assume "r \<in> rel"
  then have "r < length cr" by (rule own_released [OF o])
  then show "r < length ?cr" by simp
next
  fix r t assume "(r, t) \<in> set ?cr"
  then show "t \<le> ct" using own_created_le [OF o] own_le [OF o a] by auto
next
  fix x assume "x \<in> set (map ?f as)" and st: "stage x = AwaitGetUserMedia"
  then obtain b where b: "b \<in> set as" "x = ?f b" by auto
  show "held x = []"
  proof (cases "token b = token a")
    case True
    then show ?thesis using b st a' by simp
  next
    case False
    then show ?thesis using b st own_stage [OF o b(1)] by simp
  qed
next
  fix x r assume "x \<in> set (map ?f as)" and r: "r \<in> set (held x)"
  then obtain b where b: "b \<in> set as" "x = ?f b" by auto
  show "(r, token x) \<in> set ?cr \<and> r \<notin> rel"
  proof (cases "token b = token a")
    case True
    then have x: "x = a'" using b by simp
    then have "r = length cr \<or> r = Suc (length cr) \<or> r = Suc (Suc (length cr))"
      using r a' by simp
    moreover have "\<And>k. length cr \<le> k \<Longrightarrow> k \<notin> rel"
      using own_released [OF o] by fastforce
    ultimately show ?thesis using x a' by auto
  next
    case False
    then have "x = b" using b by simp
    then show ?thesis using own_held [OF o b(1)] r by auto
  qed
next
  fix r assume "r \<in> set lv"
  then show "(r, ct) \<in> set ?cr \<and> r \<notin> rel" using own_live [OF o] by auto
next
  fix x assume l: "lv \<noteq> []" and "x \<in> set (map ?f as)"
  then obtain b where b: "b \<in> set as" "x = ?f b" by auto
  then show "token x \<noteq> ct" using own_current [OF o l b(1)] a' by simp
next
  fix r t assume c: "(r, t) \<in> set ?cr"
  show "r \<in> rel \<or> r \<in> set lv \<or> (\<exists>x \<in> set (map ?f as). token x = t \<and> r \<in> set (held x))"
  proof (cases "(r, t) \<in> set cr")
    case True
    show ?thesis
    proof (cases "r \<in> rel \<or> r \<in> set lv")
      case True
      then show ?thesis by blast
    next
      case False
      then obtain b where b: "b \<in> set as" "token b = t" "r \<in> set (held b)"
        using own_all [OF o \<open>(r, t) \<in> set cr\<close>] by blast
      have "token b \<noteq> token a"
      proof
        assume "token b = token a"
        then have "b = a" using own_token_inj [OF o b(1) a] by simp
        then show False using b(3) e by simp
      qed
      then have "b \<in> ?f ` set as" using b(1) by (intro image_eqI [of _ _ b]) simp_all
      then have "b \<in> set (map ?f as)" by simp
      then show ?thesis using b by blast
    qed
  next
    case False
    then have rt: "t = token a"
      "r = length cr \<or> r = Suc (length cr) \<or> r = Suc (Suc (length cr))"
      using c by auto
    have "a' \<in> ?f ` set as" using a by (intro image_eqI [of _ _ a]) simp_all
    then have "a' \<in> set (map ?f as)" by simp
    moreover have "token a' = t" using rt a' by simp
    moreover have "r \<in> set (held a')" using rt a' by auto
    ultimately show ?thesis by blast
  qed
qed

text \<open>The call that carries the live token stores what it holds in the fields of the session
  and returns.\<close>

lemma own_assign:
  assumes o: "own as ct cr rel lv" and a: "a \<in> set as" and c: "token a = ct"
  shows "own (filter (\<lambda>b. token b \<noteq> token a) as) ct cr rel (held a)"
proof (rule ownI)
  fix b assume "b \<in> set (filter (\<lambda>b. token b \<noteq> token a) as)"
  then show "token b \<le> ct" using own_le [OF o] by simp
next
  show "distinct (map token (filter (\<lambda>b. token b \<noteq> token a) as))"
    using own_distinct [OF o] by (rule distinct_map_filter)
next
  show "map fst cr = [0..<length cr]" by (rule own_numbered [OF o])
next
  fix r assume "r \<in> rel"
  then show "r < length cr" by (rule own_released [OF o])
next
  fix r t assume "(r, t) \<in> set cr"
  then show "t \<le> ct" by (rule own_created_le [OF o])
next
  fix b assume "b \<in> set (filter (\<lambda>b. token b \<noteq> token a) as)" "stage b = AwaitGetUserMedia"
  then show "held b = []" using own_stage [OF o] by simp
next
  fix b r assume "b \<in> set (filter (\<lambda>b. token b \<noteq> token a) as)" and r: "r \<in> set (held b)"
  then have bs: "b \<in> set as" by simp
  show "(r, token b) \<in> set cr \<and> r \<notin> rel" by (rule own_held [OF o bs r])
next
  fix r assume "r \<in> set (held a)"
  then show "(r, ct) \<in> set cr \<and> r \<notin> rel" using own_held [OF o a] c by simp
next
  fix b assume "b \<in> set (filter (\<lambda>b. token b \<noteq> token a) as)"
  then show "token b \<noteq> ct" using c by simp
next
  fix r t assume cr: "(r, t) \<in> set cr"
  have nl: "lv = []" by (rule own_no_live_when_current [OF o a c])
  show "r \<in> rel \<or> r \<in> set (held a) \<or>
      (\<exists>b \<in> set (filter (\<lambda>b. token b \<noteq> token a) as). token b = t \<and> r \<in> set (held b))"
  proof (cases "r \<in> rel")
    case True
    then show ?thesis by blast
  next
    case False
    then obtain b where b: "b \<in> set as" "token b = t" "r \<in> set (held b)"
      using own_all [OF o cr] nl by auto
    show ?thesis
    proof (cases "token b = token a")
      case True
      then have "b = a" using own_token_inj [OF o b(1) a] by simp
      then show ?thesis using b by simp
    next
      case False
      then show ?thesis using b by auto
    qed
  qed
qed

section \<open>Operations that leave the ownership of resources alone\<close>

lemma emit_frame [simp]:
  "attempts (emit c s) = attempts s"
  "connectToken (emit c s) = connectToken s"
  "created (emit c s) = created s"
  "released (emit c s) = released s"
  "mediaStream (emit c s) = mediaStream s"
  "pc (emit c s) = pc s"
  "dc (emit c s) = dc s"
  by (simp_all add: emit_def)

lemma emit_live [simp]: "live (emit c s) = live s"
  by (simp add: live_def)

lemma status_frame [simp]:
  "attempts (status m s) = attempts s"
  "connectToken (status m s) = connectToken s"
  "created (status m s) = created s"
  "released (status m s) = released s"
  "mediaStream (status m s) = mediaStream s"
  "pc (status m s) = pc s"
  "dc (status m s) = dc s"
  by (simp_all add: status_def Let_def)

lemma status_live [simp]: "live (status m s) = live s"
  by (simp add: live_def)

lemma setListeningState_frame [simp]:
  "attempts (setListeningState b s) = attempts s"
  "connectToken (setListeningState b s) = connectToken s"
  "created (setListeningState b s) = created s"
  "released (setListeningState b s) = released s"
  "mediaStream (setListeningState b s) = mediaStream s"
  "pc (setListeningState b s) = pc s"
  "dc (setListeningState b s) = dc s"
  by (simp_all add: setListeningState_def)

lemma setListeningState_live [simp]: "live (setListeningState b s) = live s"
  by (simp add: live_def)

lemma setConnectionState_frame [simp]:
  "attempts (setConnectionState st s) = attempts s"
  "connectToken (setConnectionState st s) = connectToken s"
  "created (setConnectionState st s) = created s"
  "released (setConnectionState st s) = released s"
  "mediaStream (setConnectionState st s) = mediaStream s"
  "pc (setConnectionState st s) = pc s"
  "dc (setConnectionState st s) = dc s"
  by (simp_all add: setConnectionState_def Let_def)

lemma setConnectionState_live [simp]: "live (setConnectionState st s) = live s"
  by (simp add: live_def)

lemma handleError_frame [simp]:
  "attempts (handleError e s) = attempts s"
  "connectToken (handleError e s) = connectToken s"
  "created (handleError e s) = created s"
  "released (handleError e s) = released s"
  "mediaStream (handleError e s) = mediaStream s"
  "pc (handleError e s) = pc s"
  "dc (handleError e s) = dc s"
  by (simp_all add: handleError_def)

lemma handleError_live [simp]: "live (handleError e s) = live s"
  by (simp add: live_def)

lemma resetTranscriptState_frame [simp]:
  "attempts (resetTranscriptState s) = attempts s"
  "connectToken (resetTranscriptState s) = connectToken s"
  "created (resetTranscriptState s) = created s"
  "released (resetTranscriptState s) = released s"
  "mediaStream (resetTranscriptState s) = mediaStream s"
  "pc (resetTranscriptState s) = pc s"
  "dc (resetTranscriptState s) = dc s"
  by (simp_all add: resetTranscriptState_def)

lemma resetTranscriptState_live [simp]: "live (resetTranscriptState s) = live s"
  by (simp add: live_def)

lemma stopListening_frame [simp]:
  "attempts (stopListening k s) = attempts s"
  "connectToken (stopListening k s) = connectToken s"
  "created (stopListening k s) = created s"
  "released (stopListening k s) = released s"
  "mediaStream (stopListening k s) = mediaStream s"
  "pc (stopListening k s) = pc s"
  "dc (stopListening k s) = dc s"
  by (simp_all add: stopListening_def Let_def split: option.splits)

lemma stopListening_live [simp]: "live (stopListening k s) = live s"
  by (simp add: live_def)

lemma beginListening_frame [simp]:
  "attempts (beginListening s) = attempts s"
  "connectToken (beginListening s) = connectToken s"
  "created (beginListening s) = created s"
  "released (beginListening s) = released s"
  "mediaStream (beginListening s) = mediaStream s"
  "pc (beginListening s) = pc s"
  "dc (beginListening s) = dc s"
  by (simp_all add: beginListening_def Let_def split: option.splits)

lemma beginListening_live [simp]: "live (beginListening s) = live s"
  by (simp add: live_def)

lemma safeSend_frame [simp]:
  "attempts (safeSend obj s) = attempts s"
  "connectToken (safeSend obj s) = connectToken s"
  "created (safeSend obj s) = created s"
  "released (safeSend obj s) = released s"
  "mediaStream (safeSend obj s) = mediaStream s"
  "pc (safeSend obj s) = pc s"
  "dc (safeSend obj s) = dc s"
  by (simp_all add: safeSend_def split: option.splits)

lemma safeSend_live [simp]: "live (safeSend obj s) = live s"
  by (simp add: live_def)

lemma configureSession_frame [simp]:
  "attempts (configureSession s) = attempts s"
  "connectToken (configureSession s) = connectToken s"
  "created (configureSession s) = created s"
  "released (configureSession s) = released s"
  "mediaStream (configureSession s) = mediaStream s"
  "pc (configureSession s) = pc s"
  "dc (configureSession s) = dc s"
  by (simp_all add: configureSession_def)

lemma configureSession_live [simp]: "live (configureSession s) = live s"
  by (simp add: live_def)

lemma handleTranscriptDelta_frame [simp]:
  "attempts (handleTranscriptDelta i d s) = attempts s"
  "connectToken (handleTranscriptDelta i d s) = connectToken s"
  "created (handleTranscriptDelta i d s) = created s"
  "released (handleTranscriptDelta i d s) = released s"
  "mediaStream (handleTranscriptDelta i d s) = mediaStream s"
  "pc (handleTranscriptDelta i d s) = pc s"
  "dc (handleTranscriptDelta i d s) = dc s"
  by (simp_all add: handleTranscriptDelta_def Let_def split: option.splits)

lemma handleTranscriptDelta_live [simp]: "live (handleTranscriptDelta i d s) = live s"
  by (simp add: live_def)

lemma handleTranscriptComplete_frame [simp]:
  "attempts (handleTranscriptComplete i t s) = attempts s"
  "connectToken (handleTranscriptComplete i t s) = connectToken s"
  "created (handleTranscriptComplete i t s) = created s"
  "released (handleTranscriptComplete i t s) = released s"
  "mediaStream (handleTranscriptComplete i t s) = mediaStream s"
  "pc (handleTranscriptComplete i t s) = pc s"
  "dc (handleTranscriptComplete i t s) = dc s"
  by (simp_all add: handleTranscriptComplete_def Let_def split: option.splits)

lemma handleTranscriptComplete_live [simp]: "live (handleTranscriptComplete i t s) = live s"
  by (simp add: live_def)

lemma surfaceProtocolError_frame [simp]:
  "attempts (surfaceProtocolError obj s) = attempts s"
  "connectToken (surfaceProtocolError obj s) = connectToken s"
  "created (surfaceProtocolError obj s) = created s"
  "released (surfaceProtocolError obj s) = released s"
  "mediaStream (surfaceProtocolError obj s) = mediaStream s"
  "pc (surfaceProtocolError obj s) = pc s"
  "dc (surfaceProtocolError obj s) = dc s"
  by (simp_all add: surfaceProtocolError_def Let_def)

lemma surfaceProtocolError_live [simp]: "live (surfaceProtocolError obj s) = live s"
  by (simp add: live_def)

lemma dispatch_sameView: "sameView s (dispatch obj s)"
proof -
  define ty where "ty = (case getString obj (js ''type'') of Some t \<Rightarrow> t | None \<Rightarrow> [])"
  have basic:
    "sameView s s"
    "sameView s (surfaceProtocolError obj s)"
    "\<And>x. sameView s (safeSend x s)"
    "\<And>i d. sameView s (handleTranscriptDelta i d s)"
    "\<And>i t. sameView s (handleTranscriptComplete i t s)"
    "\<And>m. sameView s (status m s)"
    by (simp_all add: sameView_def)
  show ?thesis
    unfolding dispatch_def Let_def ty_def [symmetric]
    apply (split if_split, intro conjI impI, simp add: basic split: option.splits prod.splits)+
    apply (simp add: basic)
    done
qed

lemma onRealtimeEvent_sameView: "sameView s (onRealtimeEvent h ev s)"
proof -
  have r: "sameView s s" by (simp add: sameView_def)
  show ?thesis
    by (simp add: onRealtimeEvent_def Let_def dispatch_sameView r
        split: option.splits json.splits messageData.splits)
qed

lemma handleDataChannelOpen_sameView: "sameView s (handleDataChannelOpen t s)"
  by (simp add: sameView_def handleDataChannelOpen_def Let_def)

lemma startListeningResumed_sameView: "sameView s (startListeningResumed s)"
  by (simp add: sameView_def startListeningResumed_def Let_def)

lemma sameView_live: "sameView s s' \<Longrightarrow> live s' = live s"
  by (simp add: sameView_def live_def)

lemma ownership_sameView:
  assumes "sameView s s'" "ownership s"
  shows "ownership s'"
  using assms sameView_live [OF assms(1)] by (simp add: ownership_def sameView_def)

section \<open>Operations that release, create or hand over resources\<close>

lemma release_frame [simp]:
  "attempts (closeChannel c s) = attempts s" "connectToken (closeChannel c s) = connectToken s"
  "created (closeChannel c s) = created s" "released (closeChannel c s) = released s @ [c]"
  "mediaStream (closeChannel c s) = mediaStream s" "pc (closeChannel c s) = pc s"
  "dc (closeChannel c s) = dc s"
  "attempts (closePeer c s) = attempts s" "connectToken (closePeer c s) = connectToken s"
  "created (closePeer c s) = created s" "released (closePeer c s) = released s @ [c]"
  "mediaStream (closePeer c s) = mediaStream s" "pc (closePeer c s) = pc s"
  "dc (closePeer c s) = dc s"
  "attempts (stopTracks c s) = attempts s" "connectToken (stopTracks c s) = connectToken s"
  "created (stopTracks c s) = created s" "released (stopTracks c s) = released s @ [c]"
  "mediaStream (stopTracks c s) = mediaStream s" "pc (stopTracks c s) = pc s"
  "dc (stopTracks c s) = dc s"
  by (simp_all add: closeChannel_def closePeer_def stopTracks_def)

lemma cleanupLocalConnection_frame [simp]:
  "attempts (cleanupLocalConnection m p c s) = attempts s"
  "connectToken (cleanupLocalConnection m p c s) = connectToken s"
  "created (cleanupLocalConnection m p c s) = created s"
  "released (cleanupLocalConnection m p c s) = released s @ optList c @ optList p @ optList m"
  "mediaStream (cleanupLocalConnection m p c s) = mediaStream s"
  "pc (cleanupLocalConnection m p c s) = pc s"
  "dc (cleanupLocalConnection m p c s) = dc s"
  by (simp_all add: cleanupLocalConnection_def Let_def split: option.splits)

lemma cleanup_released_held:
  "set (released (cleanupLocalConnection (localStream a) (localPc a) (localDc a) s))
     = set (released s) \<union> set (held a)"
  by (auto simp add: held_def)

lemma teardown_frame [simp]:
  "attempts (teardown k p s) = attempts s"
  "connectToken (teardown k p s) = connectToken s"
  "created (teardown k p s) = created s"
  "mediaStream (teardown k p s) = None"
  "pc (teardown k p s) = None"
  "dc (teardown k p s) = None"
  by (simp_all add: teardown_def Let_def split: option.splits)

lemma teardown_released:
  "released (teardown k p s) = released s @ optList (dc s) @ optList (pc s) @ optList (mediaStream s)"
  by (simp add: teardown_def Let_def split: option.splits)

lemma teardown_live [simp]: "live (teardown k p s) = []"
  by (simp add: live_def)

lemma teardown_released_set:
  "set (released (teardown k p s)) = set (released s) \<union> set (live s)"
  by (auto simp add: teardown_released live_def)

lemma finish_frame [simp]:
  "attempts (finish a s) = filter (\<lambda>b. token b \<noteq> token a) (attempts s)"
  "connectToken (finish a s) = connectToken s"
  "created (finish a s) = created s"
  "released (finish a s) = released s"
  "mediaStream (finish a s) = mediaStream s"
  "pc (finish a s) = pc s"
  "dc (finish a s) = dc s"
  by (simp_all add: finish_def)

lemma finish_live [simp]: "live (finish a s) = live s"
  by (simp add: live_def)

lemma suspend_frame [simp]:
  "attempts (suspend a s) = map (\<lambda>b. if token b = token a then a else b) (attempts s)"
  "connectToken (suspend a s) = connectToken s"
  "created (suspend a s) = created s"
  "released (suspend a s) = released s"
  "mediaStream (suspend a s) = mediaStream s"
  "pc (suspend a s) = pc s"
  "dc (suspend a s) = dc s"
  by (simp_all add: suspend_def)

lemma suspend_live [simp]: "live (suspend a s) = live s"
  by (simp add: live_def)

lemma cleanup_live [simp]: "live (cleanupLocalConnection m p c s) = live s"
  by (simp add: live_def)

section \<open>Every operation keeps the ownership invariant\<close>

lemma ownership_initial: "ownership (initial key)"
  unfolding ownership_def
  by (rule ownI) (simp_all add: initial_def live_def)

lemma ownership_teardown:
  assumes "ownership s"
  shows "ownership (teardown k p s)"
  using own_bump [OF assms [unfolded ownership_def] order_refl]
  by (simp add: ownership_def teardown_released_set)

lemma ownership_disconnect:
  assumes "ownership s"
  shows "ownership (disconnect s)"
proof -
  let ?s = "invalidateConnectionAttempts s"
  have f: "attempts ?s = attempts s" "connectToken ?s = connectToken s + 1"
    "created ?s = created s" "released ?s = released s" "live ?s = live s"
    by (simp_all add: invalidateConnectionAttempts_def live_def)
  have "own (attempts s) (connectToken s + 1) (created s)
          (set (released s) \<union> set (live s)) []"
    by (rule own_bump [OF assms [unfolded ownership_def]]) simp
  then show ?thesis
    by (simp add: ownership_def disconnect_def teardown_released_set f)
qed

lemma ownership_connect:
  assumes o: "ownership s" and c: "connect h s = Inr s'"
  shows "ownership s'"
proof (cases "connectionState s = Connected \<or> connectionState s = Connecting")
  case True
  then have "s' = s" using c by (auto simp add: connect_def)
  then show ?thesis using o by simp
next
  case False
  let ?t = "Suc (connectToken s)"
  let ?n = "\<lparr>token = ?t, stage = AwaitGetUserMedia, localStream = None,
             localPc = None, localDc = None, offerSdp = [], awaited = False\<rparr>"
  let ?s4 = "teardown True True
               (status (js ''Requesting microphone.'')
                 (setConnectionState Connecting (s\<lparr>connectToken := ?t\<rparr>)))"
  have s': "s' = ?s4\<lparr>attempts := attempts ?s4 @ [?n]\<rparr>"
    using c False by (simp add: connect_def Let_def split: if_splits)
  have f: "attempts ?s4 = attempts s" "connectToken ?s4 = ?t" "created ?s4 = created s"
    "set (released ?s4) = set (released s) \<union> set (live s)"
    by (simp_all add: teardown_released_set live_def)
  have 1: "own (attempts s) ?t (created s) (set (released s) \<union> set (live s)) []"
    by (rule own_bump [OF o [unfolded ownership_def]]) simp
  have 2: "own (attempts s @ [?n]) ?t (created s) (set (released s) \<union> set (live s)) []"
  proof (rule own_new_attempt [OF 1])
    fix a assume "a \<in> set (attempts s)"
    then have "token a \<le> connectToken s" by (rule own_le [OF o [unfolded ownership_def]])
    then show "token a < ?t" by simp
  qed (simp_all add: held_def)
  show ?thesis
    using 2 by (simp add: ownership_def s' f live_def)
qed

lemma held_set:
  "set (optList (localDc a)) \<union> (set (optList (localPc a)) \<union> set (optList (localStream a)))
     = set (held a)"
  by (auto simp add: held_def)

lemma ownership_abandon:
  assumes o: "ownership s" and a: "a \<in> set (attempts s)"
  shows "ownership (abandon a s)"
  using own_release_attempt [OF o [unfolded ownership_def] a]
  by (simp add: ownership_def abandon_def held_set)

lemma ownership_catchBlock:
  assumes o: "ownership s" and a: "a \<in> set (attempts s)"
  shows "ownership (catchBlock a e s)"
  using own_release_attempt [OF o [unfolded ownership_def] a]
  by (simp add: ownership_def catchBlock_def Let_def held_set)

lemma ownership_suspend:
  assumes o: "ownership s" and a: "a \<in> set (attempts s)"
    and a': "token a' = token a" "held a' = held a" "stage a' \<noteq> AwaitGetUserMedia"
  shows "ownership (suspend a' s)"
proof -
  let ?f = "\<lambda>b. if token b = token a' then a' else b"
  have "own (map ?f (attempts s)) (connectToken s) (created s) (set (released s)) (live s)"
  proof (rule own_map_same [OF o [unfolded ownership_def]])
    fix b assume b: "b \<in> set (attempts s)"
    show "token (?f b) = token b \<and> held (?f b) = held b \<and>
            (stage (?f b) = AwaitGetUserMedia \<longrightarrow> held b = [])"
    proof (cases "token b = token a'")
      case True
      then have "b = a" using own_token_inj [OF o [unfolded ownership_def] b a] a' by simp
      then show ?thesis using True a' by simp
    next
      case False
      then show ?thesis using own_stage [OF o [unfolded ownership_def] b] by simp
    qed
  qed
  then show ?thesis by (simp add: ownership_def)
qed

lemma held_updates [simp]:
  "held (a\<lparr>stage := st\<rparr>) = held a"
  "held (a\<lparr>offerSdp := x\<rparr>) = held a"
  "held (a\<lparr>awaited := y\<rparr>) = held a"
  by (simp_all add: held_def)

lemma ownership_getUserMedia:
  assumes o: "ownership s" and a: "a \<in> set (attempts s)" and st: "stage a = AwaitGetUserMedia"
  shows "ownership (resumeFulfilled a v s)"
proof -
  let ?m = "length (created s)"
  have e: "held a = []" by (rule own_stage [OF o [unfolded ownership_def] a st])
  then have loc: "localStream a = None" "localPc a = None" "localDc a = None"
    by (auto simp add: held_def elim: optList.elims)
  show ?thesis
  proof (cases "isCurrentToken (token a) s")
    case False
    let ?s1 = "s\<lparr>created := created s @ [(?m, token a)]\<rparr>"
    have r: "resumeFulfilled a v s = abandon (a\<lparr>localStream := Some ?m\<rparr>) ?s1"
      using False st by (simp add: resumeFulfilled_def Let_def isCurrentToken_def)
    have 1: "own (filter (\<lambda>b. token b \<noteq> token a) (attempts s)) (connectToken s) (created s)
               (set (released s)) (live s)"
      using own_release_attempt [OF o [unfolded ownership_def] a] e by simp
    have "token a \<le> connectToken s" by (rule own_le [OF o [unfolded ownership_def] a])
    then have 2: "own (filter (\<lambda>b. token b \<noteq> token a) (attempts s)) (connectToken s)
               (created s @ [(?m, token a)]) (set (released s) \<union> {?m}) (live s)"
      by (rule own_add_released [OF 1])
    show ?thesis
      using 2 by (simp add: ownership_def r abandon_def loc live_def)
  next
    case True
    let ?a3 = "a\<lparr>localStream := Some ?m, localPc := Some (Suc ?m), localDc := Some (Suc (Suc ?m)),
                 stage := AwaitCreateOffer\<rparr>"
    have 1: "own (map (\<lambda>b. if token b = token a then ?a3 else b) (attempts s)) (connectToken s)
               (created s @ [(?m, token a), (Suc ?m, token a), (Suc (Suc ?m), token a)])
               (set (released s)) (live s)"
      by (rule own_create3 [OF o [unfolded ownership_def] a e]) (simp_all add: held_def)
    show ?thesis
      using 1 True st
      by (simp add: ownership_def resumeFulfilled_def Let_def isCurrentToken_def live_def)
  qed
qed

lemma ownership_assign:
  assumes o: "ownership s" and a: "a \<in> set (attempts s)" and c: "token a = connectToken s"
  shows "ownership (finish a (status m (s\<lparr>pc := localPc a, dc := localDc a, mediaStream := localStream a\<rparr>)))"
  using own_assign [OF o [unfolded ownership_def] a c]
  by (simp add: ownership_def live_def held_def)

lemma ownership_resumeFulfilled:
  assumes o: "ownership s" and a: "a \<in> set (attempts s)"
  shows "ownership (resumeFulfilled a v s)"
proof (cases "stage a = AwaitGetUserMedia")
  case True
  then show ?thesis by (rule ownership_getUserMedia [OF o a])
next
  case False
  show ?thesis
  proof (cases "isCurrentToken (token a) s")
    case stale: False
    have "resumeFulfilled a v s = abandon a s
        \<or> resumeFulfilled a v s = abandon (a\<lparr>offerSdp := (case v of Text sdp \<Rightarrow> sdp | _ \<Rightarrow> [])\<rparr>) s"
      using False stale by (simp add: resumeFulfilled_def Let_def split: stage.splits)
    moreover have "abandon (a\<lparr>offerSdp := (case v of Text sdp \<Rightarrow> sdp | _ \<Rightarrow> [])\<rparr>) s = abandon a s"
      by (simp add: abandon_def finish_def)
    ultimately show ?thesis using ownership_abandon [OF o a] by auto
  next
    case cur: True
    have susp: "\<And>a' s'. sameView s s' \<Longrightarrow> token a' = token a \<Longrightarrow> held a' = held a
        \<Longrightarrow> stage a' \<noteq> AwaitGetUserMedia \<Longrightarrow> ownership (suspend a' s')"
    proof -
      fix a' s' assume v: "sameView s s'" and a': "token a' = token a" "held a' = held a"
        "stage a' \<noteq> AwaitGetUserMedia"
      have "ownership s'" by (rule ownership_sameView [OF v o])
      moreover have "a \<in> set (attempts s')" using v a by (simp add: sameView_def)
      ultimately show "ownership (suspend a' s')" using a' by (rule ownership_suspend)
    qed
    have sv: "sameView s s" by (simp add: sameView_def)
    show ?thesis
    proof (cases "stage a")
      case AwaitGetUserMedia
      then show ?thesis using False by simp
    next
      case AwaitCreateOffer
      then show ?thesis
        using cur by (simp add: resumeFulfilled_def Let_def susp [OF sv])
    next
      case AwaitSetLocalDescription
      have "sameView s (status (js ''Exchanging SDP.'') s
          \<lparr>requests := requests (status (js ''Exchanging SDP.'') s) @
             [SdpPost (apiKey (status (js ''Exchanging SDP.'') s)) (offerSdp a)]\<rparr>)"
        by (simp add: sameView_def)
      then show ?thesis
        using cur AwaitSetLocalDescription by (simp add: resumeFulfilled_def Let_def susp)
    next
      case AwaitFetch
      then show ?thesis
        using cur by (simp add: resumeFulfilled_def Let_def susp [OF sv] ownership_catchBlock [OF o a]
            split: fulfilment.splits)
    next
      case AwaitResponseText
      then show ?thesis
        using cur by (simp add: resumeFulfilled_def Let_def susp [OF sv])
    next
      case AwaitSetRemoteDescription
      then show ?thesis
        using cur ownership_assign [OF o a]
        by (simp add: resumeFulfilled_def Let_def isCurrentToken_def)
    qed
  qed
qed

lemma ownership_resume:
  assumes "ownership s" "a \<in> set (attempts s)"
  shows "ownership (resume a r s)"
  using assms
  by (simp add: resume_def ownership_catchBlock ownership_resumeFulfilled split: settlement.splits)

lemma ownership_startListening:
  assumes o: "ownership s" and c: "startListening h s = Inr s'"
  shows "ownership s'"
proof (cases "connectionState s = Disconnected")
  case False
  then have "s' = beginListening s" using c by (simp add: startListening_def)
  moreover have "sameView s (beginListening s)" by (simp add: sameView_def)
  ultimately show ?thesis using ownership_sameView o by simp
next
  case True
  then obtain s1 where s1: "connect h s = Inr s1"
    and s': "s' = s1\<lparr>attempts :=
                map (\<lambda>b. if token b = connectToken s1 then b\<lparr>awaited := True\<rparr> else b)
                  (attempts s1)\<rparr>"
    using c by (auto simp add: startListening_def split: sum.splits)
  have o1: "ownership s1" by (rule ownership_connect [OF o s1])
  have "own (map (\<lambda>b. if token b = connectToken s1 then b\<lparr>awaited := True\<rparr> else b) (attempts s1))
          (connectToken s1) (created s1) (set (released s1)) (live s1)"
  proof (rule own_map_same [OF o1 [unfolded ownership_def]])
    fix b assume "b \<in> set (attempts s1)"
    then show "token (if token b = connectToken s1 then b\<lparr>awaited := True\<rparr> else b) = token b \<and>
      held (if token b = connectToken s1 then b\<lparr>awaited := True\<rparr> else b) = held b \<and>
      (stage (if token b = connectToken s1 then b\<lparr>awaited := True\<rparr> else b) = AwaitGetUserMedia
         \<longrightarrow> held b = [])"
      using own_stage [OF o1 [unfolded ownership_def]] by simp
  qed
  then show ?thesis by (simp add: ownership_def s' live_def)
qed

lemma find_token:
  assumes "find (\<lambda>a. token a = t) as = Some a"
  shows "a \<in> set as \<and> token a = t"
  using assms by (induction as) (auto split: if_splits)

lemma step_simps:
  "step h Connect s = (case connect h s of Inl e \<Rightarrow> s | Inr s' \<Rightarrow> s')"
  "step h Disconnect s = disconnect s"
  "step h StartListening s = (case startListening h s of Inl e \<Rightarrow> s | Inr s' \<Rightarrow> s')"
  "step h StopListening s = stopListening False s"
  "step h (Settle t r) s =
     (case find (\<lambda>a. token a = t) (attempts s) of None \<Rightarrow> s | Some a \<Rightarrow> resume a r s)"
  "step h ContinueStartListening s = startListeningResumed s"
  "step h (ChannelOpen c) s =
     (case map_of (channelHandlers s) c of
        None \<Rightarrow> s
      | Some t \<Rightarrow> handleDataChannelOpen t (s\<lparr>openChannels := openChannels s @ [c]\<rparr>))"
  "step h (ChannelClose c) s =
     (case map_of (channelHandlers s) c of
        None \<Rightarrow> s
      | Some t \<Rightarrow> handleDataChannelClosed t (s\<lparr>openChannels := removeAll c (openChannels s)\<rparr>))"
  "step h (ChannelMessage c d) s =
     (case map_of (channelHandlers s) c of None \<Rightarrow> s | Some t \<Rightarrow> onRealtimeEvent h d s)"
  "step h (PeerStateChange p st) s =
     (case map_of (peerHandlers s) p of
        None \<Rightarrow> s
      | Some t \<Rightarrow> handlePeerConnectionStateChange t st s)"
  by (simp_all add: step_def)

lemma ownership_step_connect:
  assumes o: "ownership s"
  shows "ownership (step h Connect s)"
proof (cases "connect h s")
  case (Inl e)
  then show ?thesis using o by (simp add: step_simps)
next
  case (Inr s')
  then show ?thesis using ownership_connect [OF o Inr] by (simp add: step_simps)
qed

lemma ownership_step_startListening:
  assumes o: "ownership s"
  shows "ownership (step h StartListening s)"
proof (cases "startListening h s")
  case (Inl e)
  then show ?thesis using o by (simp add: step_simps)
next
  case (Inr s')
  then show ?thesis using ownership_startListening [OF o Inr] by (simp add: step_simps)
qed

lemma ownership_step_settle:
  assumes o: "ownership s"
  shows "ownership (step h (Settle t r) s)"
proof (cases "find (\<lambda>a. token a = t) (attempts s)")
  case None
  then show ?thesis using o by (simp add: step_simps)
next
  case (Some a)
  then have "a \<in> set (attempts s)" using find_token by blast
  then have "ownership (resume a r s)" by (rule ownership_resume [OF o])
  then show ?thesis using Some by (simp add: step_simps)
qed

lemma ownership_step_channelOpen:
  assumes o: "ownership s"
  shows "ownership (step h (ChannelOpen c) s)"
proof (cases "map_of (channelHandlers s) c")
  case None
  then show ?thesis using o by (simp add: step_simps)
next
  case (Some t)
  let ?s = "s\<lparr>openChannels := openChannels s @ [c]\<rparr>"
  have "sameView s ?s" by (simp add: sameView_def)
  then have "ownership ?s" using o by (rule ownership_sameView)
  then have "ownership (handleDataChannelOpen t ?s)"
    by (rule ownership_sameView [OF handleDataChannelOpen_sameView])
  then show ?thesis using Some by (simp add: step_simps)
qed

lemma ownership_handleDataChannelClosed:
  assumes o: "ownership s"
  shows "ownership (handleDataChannelClosed t s)"
proof (cases "isCurrentToken t s")
  case False
  then show ?thesis using o by (simp add: handleDataChannelClosed_def)
next
  case True
  have "sameView s (status (js ''Connection closed.'') s)" by (simp add: sameView_def)
  then have "ownership (status (js ''Connection closed.'') s)" using o by (rule ownership_sameView)
  then have "ownership (teardown False False (status (js ''Connection closed.'') s))"
    by (rule ownership_teardown)
  then show ?thesis using True by (simp add: handleDataChannelClosed_def)
qed

lemma ownership_handlePeerConnectionStateChange:
  assumes o: "ownership s"
  shows "ownership (handlePeerConnectionStateChange t st s)"
proof (cases "isCurrentToken t s \<and> (st = PeerFailed \<or> st = PeerDisconnected \<or> st = PeerClosed)")
  case False
  then show ?thesis using o by (auto simp add: handlePeerConnectionStateChange_def)
next
  case True
  have "sameView s (status (js ''Connection lost.'') s)" by (simp add: sameView_def)
  then have "ownership (status (js ''Connection lost.'') s)" using o by (rule ownership_sameView)
  then have "ownership (teardown False False (status (js ''Connection lost.'') s))"
    by (rule ownership_teardown)
  then show ?thesis using True by (auto simp add: handlePeerConnectionStateChange_def)
qed

lemma ownership_step_channelClose:
  assumes o: "ownership s"
  shows "ownership (step h (ChannelClose c) s)"
proof (cases "map_of (channelHandlers s) c")
  case None
  then show ?thesis using o by (simp add: step_simps)
next
  case (Some t)
  let ?s = "s\<lparr>openChannels := removeAll c (openChannels s)\<rparr>"
  have "sameView s ?s" by (simp add: sameView_def)
  then have "ownership ?s" using o by (rule ownership_sameView)
  then have "ownership (handleDataChannelClosed t ?s)"
    by (rule ownership_handleDataChannelClosed)
  then show ?thesis using Some by (simp add: step_simps)
qed

lemma ownership_step_channelMessage:
  assumes o: "ownership s"
  shows "ownership (step h (ChannelMessage c d) s)"
proof (cases "map_of (channelHandlers s) c")
  case None
  then show ?thesis using o by (simp add: step_simps)
next
  case (Some t)
  have "ownership (onRealtimeEvent h d s)"
    by (rule ownership_sameView [OF onRealtimeEvent_sameView o])
  then show ?thesis using Some by (simp add: step_simps)
qed

lemma ownership_step_peerStateChange:
  assumes o: "ownership s"
  shows "ownership (step h (PeerStateChange p st) s)"
proof (cases "map_of (peerHandlers s) p")
  case None
  then show ?thesis using o by (simp add: step_simps)
next
  case (Some t)
  have "ownership (handlePeerConnectionStateChange t st s)"
    by (rule ownership_handlePeerConnectionStateChange [OF o])
  then show ?thesis using Some by (simp add: step_simps)
qed

lemma ownership_step:
  assumes o: "ownership s"
  shows "ownership (step h i s)"
proof (cases i)
  case Connect
  then show ?thesis using ownership_step_connect [OF o] by simp
next
  case Disconnect
  then show ?thesis using ownership_disconnect [OF o] by (simp add: step_simps)
next
  case StartListening
  then show ?thesis using ownership_step_startListening [OF o] by simp
next
  case StopListening
  have "sameView s (stopListening False s)" by (simp add: sameView_def)
  then have "ownership (stopListening False s)" using o by (rule ownership_sameView)
  then show ?thesis using StopListening by (simp add: step_simps)
next
  case (Settle t r)
  then show ?thesis using ownership_step_settle [OF o] by simp
next
  case ContinueStartListening
  then show ?thesis
    using ownership_sameView [OF startListeningResumed_sameView o] by (simp add: step_simps)
next
  case (ChannelOpen c)
  then show ?thesis using ownership_step_channelOpen [OF o] by simp
next
  case (ChannelClose c)
  then show ?thesis using ownership_step_channelClose [OF o] by simp
next
  case (ChannelMessage c d)
  then show ?thesis using ownership_step_channelMessage [OF o] by simp
next
  case (PeerStateChange p st)
  then show ?thesis using ownership_step_peerStateChange [OF o] by simp
qed

lemma ownership_run:
  assumes "ownership s"
  shows "ownership (run h is s)"
  using assms unfolding run_def
proof (induction "is" arbitrary: s)
  case Nil
  then show ?case by simp
next
  case (Cons i "is")
  have "ownership (step h i s)" by (rule ownership_step [OF Cons.prems])
  then have "ownership (fold (step h) is (step h i s))" by (rule Cons.IH)
  then show ?case by simp
qed

section \<open>Superseded calls\<close>

lemma abandon_quiet:
  "connectionState (abandon a s) = connectionState s"
  "listening (abandon a s) = listening s"
  "calls (abandon a s) = calls s"
  "connectToken (abandon a s) = connectToken s"
  "live (abandon a s) = live s"
  "attempts (abandon a s) = filter (\<lambda>b. token b \<noteq> token a) (attempts s)"
  by (simp_all add: abandon_def finish_def cleanupLocalConnection_def closeChannel_def
      closePeer_def stopTracks_def Let_def live_def split: option.splits)

lemma stale_resume_is_abandon:
  assumes "token a \<noteq> connectToken s"
  shows "\<exists>a' s'. resume a r s = abandon a' s' \<and> token a' = token a \<and>
           connectionState s' = connectionState s \<and> listening s' = listening s \<and>
           calls s' = calls s \<and> connectToken s' = connectToken s \<and> live s' = live s \<and>
           attempts s' = attempts s"
proof (cases r)
  case (Rejected e)
  have "resume a r s = abandon a s"
    using assms Rejected
    by (simp add: resume_def catchBlock_def abandon_def isCurrentToken_def Let_def)
  then show ?thesis by blast
next
  case (Fulfilled v)
  show ?thesis
  proof (cases "stage a")
    case AwaitGetUserMedia
    let ?s1 = "s\<lparr>created := created s @ [(length (created s), token a)]\<rparr>"
    have "resume a r s = abandon (a\<lparr>localStream := Some (length (created s))\<rparr>) ?s1"
      using assms Fulfilled AwaitGetUserMedia
      by (simp add: resume_def resumeFulfilled_def isCurrentToken_def Let_def)
    moreover have "live ?s1 = live s" by (simp add: live_def)
    ultimately show ?thesis
      by (intro exI [of _ "a\<lparr>localStream := Some (length (created s))\<rparr>"] exI [of _ ?s1]) simp
  next
    case AwaitCreateOffer
    have "resume a r s = abandon (a\<lparr>offerSdp := (case v of Text sdp \<Rightarrow> sdp | _ \<Rightarrow> [])\<rparr>) s"
      using assms Fulfilled AwaitCreateOffer
      by (simp add: resume_def resumeFulfilled_def isCurrentToken_def Let_def)
    then show ?thesis
      by (intro exI [of _ "a\<lparr>offerSdp := (case v of Text sdp \<Rightarrow> sdp | _ \<Rightarrow> [])\<rparr>"] exI [of _ s]) simp
  next
    case AwaitSetLocalDescription
    have "resume a r s = abandon a s"
      using assms Fulfilled AwaitSetLocalDescription
      by (simp add: resume_def resumeFulfilled_def isCurrentToken_def Let_def)
    then show ?thesis by blast
  next
    case AwaitFetch
    have "resume a r s = abandon a s"
      using assms Fulfilled AwaitFetch
      by (simp add: resume_def resumeFulfilled_def isCurrentToken_def Let_def)
    then show ?thesis by blast
  next
    case AwaitResponseText
    have "resume a r s = abandon a s"
      using assms Fulfilled AwaitResponseText
      by (simp add: resume_def resumeFulfilled_def isCurrentToken_def Let_def)
    then show ?thesis by blast
  next
    case AwaitSetRemoteDescription
    have "resume a r s = abandon a s"
      using assms Fulfilled AwaitSetRemoteDescription
      by (simp add: resume_def resumeFulfilled_def isCurrentToken_def Let_def)
    then show ?thesis by blast
  qed
qed

lemma stale_resume:
  assumes o: "ownership s" and a: "a \<in> set (attempts s)" and n: "token a \<noteq> connectToken s"
  shows "staleResume a r s"
proof -
  obtain a' s' where r: "resume a r s = abandon a' s'" and t: "token a' = token a"
    and q: "connectionState s' = connectionState s" "listening s' = listening s"
      "calls s' = calls s" "connectToken s' = connectToken s" "live s' = live s"
      "attempts s' = attempts s"
    using stale_resume_is_abandon [OF n] by blast
  have o': "own (attempts (resume a r s)) (connectToken (resume a r s)) (created (resume a r s))
              (set (released (resume a r s))) (live (resume a r s))"
    using ownership_resume [OF o a] by (simp add: ownership_def)
  have gone: "token a \<notin> token ` set (attempts (resume a r s))"
    by (auto simp add: r abandon_quiet t)
  have ct: "connectToken (resume a r s) = connectToken s"
    by (simp add: r abandon_quiet q)
  have all: "\<forall>(x, u) \<in> set (created (resume a r s)).
      u = token a \<longrightarrow> x \<in> set (released (resume a r s))"
  proof -
    {
      fix x assume c: "(x, token a) \<in> set (created (resume a r s))"
      have "x \<notin> set (live (resume a r s))"
      proof
        assume "x \<in> set (live (resume a r s))"
        then have "(x, connectToken (resume a r s)) \<in> set (created (resume a r s))"
          using own_live [OF o'] by blast
        then have "token a = connectToken (resume a r s)"
          using created_functional [OF own_numbered [OF o'] c] by blast
        then show False using n ct by simp
      qed
      moreover have "\<not> (\<exists>b \<in> set (attempts (resume a r s)). token b = token a \<and> x \<in> set (held b))"
      proof
        assume "\<exists>b \<in> set (attempts (resume a r s)). token b = token a \<and> x \<in> set (held b)"
        then obtain b where "b \<in> set (attempts (resume a r s))" "token b = token a" by blast
        then have "token a \<in> token ` set (attempts (resume a r s))" by (metis imageI)
        then show False using gone by simp
      qed
      ultimately have "x \<in> set (released (resume a r s))"
        using own_all [OF o' c] by blast
    }
    then show ?thesis by auto
  qed
  show ?thesis
    unfolding staleResume_def
    using gone all by (simp add: r abandon_quiet q)
qed

section \<open>What supersedes a suspended call\<close>

lemma disconnect_fields:
  "attempts (disconnect s) = attempts s"
  "connectToken (disconnect s) = connectToken s + 1"
  by (simp_all add: disconnect_def invalidateConnectionAttempts_def)

lemma invalidatesI:
  assumes o: "ownership s" and o': "ownership s'"
    and ct: "connectToken s' = connectToken s + 1"
    and sub: "set (attempts s) \<subseteq> set (attempts s')"
  shows "invalidates s s'"
proof -
  {
    fix a assume a: "a \<in> set (attempts s)"
    have a': "a \<in> set (attempts s')" using a sub by blast
    have "token a \<le> connectToken s" by (rule own_le [OF o [unfolded ownership_def] a])
    then have n: "token a \<noteq> connectToken s'" using ct by simp
    have "\<forall>r. staleResume a r s'" using stale_resume [OF o' a' n] by blast
    then have "a \<in> set (attempts s') \<and> token a \<noteq> connectToken s' \<and> (\<forall>r. staleResume a r s')"
      using a' n by blast
  }
  then show ?thesis unfolding invalidates_def using ct by blast
qed

lemma disconnect_invalidates:
  assumes o: "ownership s"
  shows "invalidates s (disconnect s)"
  by (rule invalidatesI [OF o ownership_disconnect [OF o]]) (simp_all add: disconnect_fields)

lemma connect_fresh:
  assumes "connectionState s = Disconnected" "inBrowser h" "hasGetUserMedia h"
  shows "attempts (step h Connect s) =
           attempts s @ [\<lparr>token = Suc (connectToken s), stage = AwaitGetUserMedia,
              localStream = None, localPc = None, localDc = None, offerSdp = [],
              awaited = False\<rparr>]"
    and "connectToken (step h Connect s) = Suc (connectToken s)"
  using assms by (simp_all add: step_simps connect_def Let_def)

lemma connect_invalidates:
  assumes o: "ownership s"
    and d: "connectionState s = Disconnected" "inBrowser h" "hasGetUserMedia h"
  shows "invalidates s (step h Connect s)"
    and "map token (filter (\<lambda>a. token a = connectToken (step h Connect s))
                     (attempts (step h Connect s)))
          = [connectToken (step h Connect s)]"
proof -
  show "invalidates s (step h Connect s)"
    by (rule invalidatesI [OF o ownership_step [OF o]]) (auto simp add: connect_fresh [OF d])
  have "\<forall>a \<in> set (attempts s). token a \<noteq> Suc (connectToken s)"
    using own_le [OF o [unfolded ownership_def]] by fastforce
  then have "filter (\<lambda>a. token a = Suc (connectToken s)) (attempts s) = []"
    by (simp add: filter_empty_conv)
  then show "map token (filter (\<lambda>a. token a = connectToken (step h Connect s))
                     (attempts (step h Connect s)))
          = [connectToken (step h Connect s)]"
    by (simp add: connect_fresh [OF d])
qed

text \<open>
  Claim C2, amended. A \<open>connect()\<close> issued while the first call is still Connecting returns
  at once and starts no second attempt. A suspended call is superseded whenever the token
  is incremented: by \<open>disconnect()\<close>, and by every \<open>connect()\<close> that starts a new attempt,
  which it does on a Disconnected session (after \<open>disconnect()\<close>, after a failed attempt or
  after a teardown by a channel or peer event). For every sequence of public calls, promise
  settlements and channel and peer events on a new session, in the state reached:
  the live token is the greatest token; the live resources were created under the live
  token and are not released; every other resource is released or still held by the
  suspended call that created it; a suspended call whose token is not the live one, when
  its promise settles in either way, releases everything created under its token and
  returns, leaving the live resources, the connection state, the listening flag and the
  token as they are and invoking no callback; \<open>disconnect()\<close> increments the token and
  thereby supersedes every suspended call, none of which carries the live token
  afterwards; and \<open>connect()\<close> on a Disconnected session in a browser increments the token,
  supersedes every suspended call and adds exactly one call that carries the live token.
\<close>

theorem token_supersession: "supersession h (run h is (initial key))"
proof -
  let ?s = "run h is (initial key)"
  have o: "ownership ?s" by (rule ownership_run [OF ownership_initial])
  have g: "connectionState ?s = Connecting \<longrightarrow> connect h ?s = Inr ?s"
    by (simp add: connect_def)
  have st: "\<forall>a \<in> set (attempts ?s). token a \<noteq> connectToken ?s \<longrightarrow> (\<forall>r. staleResume a r ?s)"
    using stale_resume [OF o] by blast
  have dis: "invalidates ?s (disconnect ?s)" by (rule disconnect_invalidates [OF o])
  have at: "attempts (disconnect ?s) = attempts ?s" by (rule disconnect_fields)
  have con: "connectionState ?s = Disconnected \<and> inBrowser h \<and> hasGetUserMedia h \<longrightarrow>
        invalidates ?s (step h Connect ?s) \<and>
        map token (filter (\<lambda>a. token a = connectToken (step h Connect ?s))
                     (attempts (step h Connect ?s)))
          = [connectToken (step h Connect ?s)]"
    using connect_invalidates [OF o] by blast
  show ?thesis
    unfolding supersession_def
    by (intro conjI) (fact g, fact o, fact st, fact dis, fact at, fact con)
qed

section \<open>A Disconnected session is not listening\<close>

lemma mode_frame [simp]:
  "connectionState (emit c s) = connectionState s" "listening (emit c s) = listening s"
  "connectionState (status m s) = connectionState s" "listening (status m s) = listening s"
  "connectionState (handleError e s) = connectionState s" "listening (handleError e s) = listening s"
  "connectionState (resetTranscriptState s) = connectionState s"
  "listening (resetTranscriptState s) = listening s"
  "connectionState (safeSend x s) = connectionState s" "listening (safeSend x s) = listening s"
  "connectionState (configureSession s) = connectionState s"
  "listening (configureSession s) = listening s"
  "connectionState (closeChannel n s) = connectionState s" "listening (closeChannel n s) = listening s"
  "connectionState (closePeer n s) = connectionState s" "listening (closePeer n s) = listening s"
  "connectionState (stopTracks n s) = connectionState s" "listening (stopTracks n s) = listening s"
  "connectionState (finish a s) = connectionState s" "listening (finish a s) = listening s"
  "connectionState (suspend a s) = connectionState s" "listening (suspend a s) = listening s"
  by (simp_all add: emit_def status_def Let_def handleError_def resetTranscriptState_def
      safeSend_def configureSession_def closeChannel_def closePeer_def stopTracks_def
      finish_def suspend_def split: option.splits)

lemma mode_cleanup [simp]:
  "connectionState (cleanupLocalConnection m p c s) = connectionState s"
  "listening (cleanupLocalConnection m p c s) = listening s"
  by (simp_all add: cleanupLocalConnection_def Let_def split: option.splits)

lemma mode_transcript [simp]:
  "connectionState (handleTranscriptDelta i d s) = connectionState s"
  "listening (handleTranscriptDelta i d s) = listening s"
  "connectionState (handleTranscriptComplete i t s) = connectionState s"
  "listening (handleTranscriptComplete i t s) = listening s"
  "connectionState (surfaceProtocolError obj s) = connectionState s"
  "listening (surfaceProtocolError obj s) = listening s"
  by (simp_all add: handleTranscriptDelta_def handleTranscriptComplete_def
      surfaceProtocolError_def Let_def split: option.splits)

lemma setListeningState_mode [simp]:
  "listening (setListeningState b s) = b"
  "connectionState (setListeningState b s) = connectionState s"
  by (simp_all add: setListeningState_def)

lemma setConnectionState_mode [simp]:
  "connectionState (setConnectionState st s) = st"
  "listening (setConnectionState st s) = (st = Connected \<and> listening s)"
  by (auto simp add: setConnectionState_def Let_def)

lemma stopListening_mode [simp]:
  "listening (stopListening k s) = False"
  "connectionState (stopListening k s) = connectionState s"
  by (simp_all add: stopListening_def Let_def split: option.splits)

lemma beginListening_mode [simp]:
  "listening (beginListening s) = True"
  "connectionState (beginListening s) = connectionState s"
  by (simp_all add: beginListening_def Let_def split: option.splits)

lemma teardown_mode [simp]:
  "listening (teardown k p s) = False"
  "connectionState (teardown k p s) = (if k then connectionState s else Disconnected)"
  by (simp_all add: teardown_def Let_def split: option.splits)

lemma dispatch_sameMode: "sameMode s (dispatch obj s)"
proof -
  define ty where "ty = (case getString obj (js ''type'') of Some t \<Rightarrow> t | None \<Rightarrow> [])"
  have basic:
    "sameMode s s"
    "sameMode s (surfaceProtocolError obj s)"
    "\<And>x. sameMode s (safeSend x s)"
    "\<And>i d. sameMode s (handleTranscriptDelta i d s)"
    "\<And>i t. sameMode s (handleTranscriptComplete i t s)"
    "\<And>m. sameMode s (status m s)"
    by (simp_all add: sameMode_def)
  show ?thesis
    unfolding dispatch_def Let_def ty_def [symmetric]
    apply (split if_split, intro conjI impI, simp add: basic split: option.splits prod.splits)+
    apply (simp add: basic)
    done
qed

lemma onRealtimeEvent_sameMode: "sameMode s (onRealtimeEvent h ev s)"
proof -
  have r: "sameMode s s" by (simp add: sameMode_def)
  show ?thesis
    by (simp add: onRealtimeEvent_def Let_def dispatch_sameMode r
        split: option.splits json.splits messageData.splits)
qed

lemma idle_sameMode:
  assumes "sameMode s s'" "idleWhenDisconnected s"
  shows "idleWhenDisconnected s'"
  using assms by (simp add: sameMode_def idleWhenDisconnected_def)

lemma idle_not_listening:
  assumes "\<not> listening s"
  shows "idleWhenDisconnected s"
  using assms by (simp add: idleWhenDisconnected_def)

lemma idle_not_disconnected:
  assumes "connectionState s \<noteq> Disconnected"
  shows "idleWhenDisconnected s"
  using assms by (simp add: idleWhenDisconnected_def)

lemma idle_connect:
  assumes i: "idleWhenDisconnected s" and c: "connect h s = Inr s'"
  shows "idleWhenDisconnected s'"
proof (cases "connectionState s = Connected \<or> connectionState s = Connecting")
  case True
  then have "s' = s" using c by (auto simp add: connect_def)
  then show ?thesis using i by simp
next
  case False
  then have "connectionState s' = Connecting"
    using c by (auto simp add: connect_def Let_def split: if_splits)
  then show ?thesis by (simp add: idleWhenDisconnected_def)
qed

lemma idle_abandon:
  assumes "idleWhenDisconnected s"
  shows "idleWhenDisconnected (abandon a s)"
  using assms by (simp add: idleWhenDisconnected_def abandon_def)

lemma idle_catchBlock:
  assumes "idleWhenDisconnected s"
  shows "idleWhenDisconnected (catchBlock a e s)"
  using assms by (simp add: idleWhenDisconnected_def catchBlock_def Let_def)

lemma resumeFulfilled_mode:
  "sameMode s (resumeFulfilled a v s) \<or> (\<exists>e. resumeFulfilled a v s = catchBlock a e s)"
proof (cases "stage a")
  case AwaitGetUserMedia
  then show ?thesis
    by (simp add: resumeFulfilled_def Let_def sameMode_def abandon_def)
next
  case AwaitCreateOffer
  then show ?thesis
    by (simp add: resumeFulfilled_def Let_def sameMode_def abandon_def)
next
  case AwaitSetLocalDescription
  then show ?thesis
    by (simp add: resumeFulfilled_def Let_def sameMode_def abandon_def)
next
  case AwaitFetch
  then show ?thesis
    by (cases v) (auto simp add: resumeFulfilled_def Let_def sameMode_def abandon_def)
next
  case AwaitResponseText
  then show ?thesis
    by (simp add: resumeFulfilled_def Let_def sameMode_def abandon_def)
next
  case AwaitSetRemoteDescription
  then show ?thesis
    by (simp add: resumeFulfilled_def Let_def sameMode_def abandon_def)
qed

lemma idle_resume:
  assumes i: "idleWhenDisconnected s"
  shows "idleWhenDisconnected (resume a r s)"
proof (cases r)
  case (Rejected e)
  then show ?thesis using idle_catchBlock [OF i] by (simp add: resume_def)
next
  case (Fulfilled v)
  then show ?thesis
    using resumeFulfilled_mode [of s a v] idle_sameMode [OF _ i] idle_catchBlock [OF i]
    by (auto simp add: resume_def)
qed

lemma idle_startListening:
  assumes i: "idleWhenDisconnected s" and c: "startListening h s = Inr s'"
  shows "idleWhenDisconnected s'"
proof (cases "connectionState s = Disconnected")
  case False
  then have "s' = beginListening s" using c by (simp add: startListening_def)
  then show ?thesis using False by (simp add: idleWhenDisconnected_def)
next
  case True
  then obtain s1 where s1: "connect h s = Inr s1"
    and s': "s' = s1\<lparr>attempts :=
                map (\<lambda>b. if token b = connectToken s1 then b\<lparr>awaited := True\<rparr> else b)
                  (attempts s1)\<rparr>"
    using c by (auto simp add: startListening_def split: sum.splits)
  have "idleWhenDisconnected s1" by (rule idle_connect [OF i s1])
  then show ?thesis by (simp add: s' idleWhenDisconnected_def)
qed

lemma idle_startListeningResumed:
  assumes "idleWhenDisconnected s"
  shows "idleWhenDisconnected (startListeningResumed s)"
  using assms by (simp add: idleWhenDisconnected_def startListeningResumed_def Let_def)

lemma idle_handlers:
  assumes "idleWhenDisconnected s"
  shows "idleWhenDisconnected (handleDataChannelOpen t s)"
    and "idleWhenDisconnected (handleDataChannelClosed t s)"
    and "idleWhenDisconnected (handlePeerConnectionStateChange t st s)"
  using assms
  by (simp_all add: idleWhenDisconnected_def handleDataChannelOpen_def
      handleDataChannelClosed_def handlePeerConnectionStateChange_def Let_def)

lemma idle_step:
  assumes i: "idleWhenDisconnected s"
  shows "idleWhenDisconnected (step h x s)"
proof (cases x)
  case Connect
  show ?thesis
  proof (cases "connect h s")
    case (Inl e)
    then show ?thesis using i Connect by (simp add: step_simps)
  next
    case (Inr s')
    then show ?thesis using idle_connect [OF i Inr] Connect by (simp add: step_simps)
  qed
next
  case Disconnect
  then show ?thesis by (simp add: step_simps disconnect_def idleWhenDisconnected_def)
next
  case StartListening
  show ?thesis
  proof (cases "startListening h s")
    case (Inl e)
    then show ?thesis using i StartListening by (simp add: step_simps)
  next
    case (Inr s')
    then show ?thesis using idle_startListening [OF i Inr] StartListening by (simp add: step_simps)
  qed
next
  case StopListening
  then show ?thesis by (simp add: step_simps idleWhenDisconnected_def)
next
  case (Settle t r)
  show ?thesis
  proof (cases "find (\<lambda>a. token a = t) (attempts s)")
    case None
    then show ?thesis using i Settle by (simp add: step_simps)
  next
    case (Some a)
    then show ?thesis using idle_resume [OF i] Settle by (simp add: step_simps)
  qed
next
  case ContinueStartListening
  then show ?thesis using idle_startListeningResumed [OF i] by (simp add: step_simps)
next
  case (ChannelOpen c)
  let ?s = "s\<lparr>openChannels := openChannels s @ [c]\<rparr>"
  have "idleWhenDisconnected ?s" using i by (simp add: idleWhenDisconnected_def)
  then have "\<And>t. idleWhenDisconnected (handleDataChannelOpen t ?s)" by (rule idle_handlers)
  then show ?thesis using i ChannelOpen by (simp add: step_simps split: option.splits)
next
  case (ChannelClose c)
  let ?s = "s\<lparr>openChannels := removeAll c (openChannels s)\<rparr>"
  have "idleWhenDisconnected ?s" using i by (simp add: idleWhenDisconnected_def)
  then have "\<And>t. idleWhenDisconnected (handleDataChannelClosed t ?s)" by (rule idle_handlers)
  then show ?thesis using i ChannelClose by (simp add: step_simps split: option.splits)
next
  case (ChannelMessage c d)
  have "idleWhenDisconnected (onRealtimeEvent h d s)"
    by (rule idle_sameMode [OF onRealtimeEvent_sameMode i])
  then show ?thesis using i ChannelMessage by (simp add: step_simps split: option.splits)
next
  case (PeerStateChange p st)
  have "\<And>t. idleWhenDisconnected (handlePeerConnectionStateChange t st s)"
    by (rule idle_handlers [OF i])
  then show ?thesis using i PeerStateChange by (simp add: step_simps split: option.splits)
qed

lemma idle_run:
  assumes "idleWhenDisconnected s"
  shows "idleWhenDisconnected (run h is s)"
  using assms unfolding run_def
proof (induction "is" arbitrary: s)
  case Nil
  then show ?case by simp
next
  case (Cons i "is")
  have "idleWhenDisconnected (step h i s)" by (rule idle_step [OF Cons.prems])
  then have "idleWhenDisconnected (fold (step h) is (step h i s))" by (rule Cons.IH)
  then show ?case by simp
qed

lemma idle_initial: "idleWhenDisconnected (initial key)"
  by (simp add: idleWhenDisconnected_def initial_def)

section \<open>Status texts\<close>

lemma trim_nonempty:
  assumes "\<not> is_white_space x"
  shows "trim (x # xs) \<noteq> []"
  using assms trim_empty_iff [of "x # xs"] by auto

lemma status_literal:
  assumes "trim m = m" "m \<noteq> []"
  shows "status m s = emit (OnStatus m) s"
  using assms by (simp add: status_def Let_def)

lemma trim_literals:
  "trim (js ''Requesting microphone.'') = js ''Requesting microphone.''"
  "trim (js ''Building connection.'') = js ''Building connection.''"
  "trim (js ''Exchanging SDP.'') = js ''Exchanging SDP.''"
  "trim (js ''Waiting for channel.'') = js ''Waiting for channel.''"
  "trim (js ''Listening.'') = js ''Listening.''"
  "trim (js ''Processing. Stand by.'') = js ''Processing. Stand by.''"
  "trim (js ''Connected. Configuring.'') = js ''Connected. Configuring.''"
  "trim (js ''Connection closed.'') = js ''Connection closed.''"
  "trim (js ''Connection lost.'') = js ''Connection lost.''"
  "trim (js ''Disconnected.'') = js ''Disconnected.''"
  by (simp_all add: trim_unchanged js_def is_white_space_def)

lemma js_Cons_nonempty: "js (c # cs) \<noteq> []"
  by (simp add: js_def)

lemma status_literals:
  "status (js ''Requesting microphone.'') s = emit (OnStatus (js ''Requesting microphone.'')) s"
  "status (js ''Building connection.'') s = emit (OnStatus (js ''Building connection.'')) s"
  "status (js ''Exchanging SDP.'') s = emit (OnStatus (js ''Exchanging SDP.'')) s"
  "status (js ''Waiting for channel.'') s = emit (OnStatus (js ''Waiting for channel.'')) s"
  "status (js ''Listening.'') s = emit (OnStatus (js ''Listening.'')) s"
  "status (js ''Processing. Stand by.'') s = emit (OnStatus (js ''Processing. Stand by.'')) s"
  "status (js ''Connected. Configuring.'') s = emit (OnStatus (js ''Connected. Configuring.'')) s"
  "status (js ''Connection closed.'') s = emit (OnStatus (js ''Connection closed.'')) s"
  "status (js ''Connection lost.'') s = emit (OnStatus (js ''Connection lost.'')) s"
  "status (js ''Disconnected.'') s = emit (OnStatus (js ''Disconnected.'')) s"
  by (simp_all add: status_literal trim_literals js_Cons_nonempty)

lemma status_error:
  "status (js ''Error: '' @ m) s = emit (OnStatus (trim (js ''Error: '' @ m))) s"
proof -
  have "js ''Error: '' @ m = 0x45 # (js ''rror: '' @ m)" by (simp add: js_def)
  moreover have "\<not> is_white_space (0x45 :: code_unit)" by (simp add: is_white_space_def)
  ultimately have "trim (js ''Error: '' @ m) \<noteq> []"
    using trim_nonempty by simp
  then show ?thesis by (simp add: status_def Let_def)
qed

section \<open>Stopping and disconnecting\<close>

lemma teardown_idle_calls:
  assumes "\<not> listening s" "connectionState s = Disconnected"
  shows "calls (teardown False False s) = calls s @ [OnStatus (js ''Disconnected.'')]"
  using assms
  by (simp add: teardown_def Let_def setListeningState_def emit_def
      closeChannel_def closePeer_def stopTracks_def resetTranscriptState_def
      setConnectionState_def status_literals split: option.splits)

lemma disconnect_idle:
  assumes "\<not> listening s" "connectionState s = Disconnected"
  shows "connectionState (disconnect s) = Disconnected"
    and "listening (disconnect s) = False"
    and "live (disconnect s) = []"
    and "connectToken (disconnect s) = connectToken s + 1"
    and "calls (disconnect s) = calls s @ [OnStatus (js ''Disconnected.'')]"
  using assms
  by (simp_all add: disconnect_def invalidateConnectionAttempts_def teardown_idle_calls)

text \<open>
  Claim C5, amended. \<open>stopListening\<close> on a session that is not listening changes nothing
  and invokes no callback, with or without the status update suppressed. In every state a
  new session can reach in which it is Disconnected, \<open>disconnect\<close> leaves it Disconnected
  and not listening with no live resource and invokes neither the connection-state nor the
  listening callback; it does increment the generation token, and it invokes the status
  callback once, with \<open>Disconnected.\<close>.
\<close>

theorem stop_and_disconnect_when_idle:
  "(\<not> listening s \<longrightarrow> stopIsNoOp s) \<and> disconnectWhenDisconnected (run h is (initial key))"
proof -
  have 1: "\<not> listening s \<longrightarrow> stopIsNoOp s"
    by (simp add: stopIsNoOp_def stopListening_def)
  have "idleWhenDisconnected (run h is (initial key))"
    by (rule idle_run [OF idle_initial])
  then have 2: "disconnectWhenDisconnected (run h is (initial key))"
    unfolding disconnectWhenDisconnected_def idleWhenDisconnected_def
    using disconnect_idle by blast
  show ?thesis using 1 2 by blast
qed

text \<open>
  Claim C5 as stated fails for \<open>disconnect\<close>: on a new session, which is Disconnected,
  \<open>disconnect\<close> changes the state (the token) and invokes a callback (the status).
\<close>

theorem disconnect_when_disconnected_counterexample:
  "\<not> (disconnect (initial (js ''sk'')) = initial (js ''sk''))
   \<and> calls (disconnect (initial (js ''sk''))) \<noteq> calls (initial (js ''sk''))"
proof -
  have c: "calls (disconnect (initial (js ''sk''))) = [OnStatus (js ''Disconnected.'')]"
    using disconnect_idle(5) [of "initial (js ''sk'')"] by (simp add: initial_def)
  have i: "calls (initial (js ''sk'')) = []" by (simp add: initial_def)
  show ?thesis using c i by auto
qed

section \<open>Inbound events\<close>

lemma dispatch_error:
  assumes "typeTag obj = js ''error'' \<or> typeTag obj = js ''response.error''"
  shows "dispatch obj s = surfaceProtocolError obj s"
  using assms
  by (auto simp add: dispatch_def typeTag_def Let_def js_def)

text \<open>
  Claim C6. An inbound message that parses to an object of type \<open>error\<close> or
  \<open>response.error\<close> makes the session invoke the status callback with \<open>Error: \<close>
  followed by the nested error message (trimmed, as every status is) and then the error
  callback with that message, and changes nothing else: connection state, listening flag,
  token, live resources, channels and pending calls stay as they are. The message is the
  string at \<open>error.message\<close> when there is a non-empty one, and \<open>unknown\<close> when the
  \<open>error\<close> object or its \<open>message\<close> string is absent (or the string is empty).
\<close>

theorem protocol_error_keeps_connection:
  assumes "d \<noteq> []" and "parseJSON h d = Some (JObject obj)"
    and "typeTag obj = js ''error'' \<or> typeTag obj = js ''response.error''"
  shows "onRealtimeEvent h (TextData d) s =
           s\<lparr>calls := calls s @ [OnStatus (trim (js ''Error: '' @ nestedErrorMessage obj)),
                                   OnError (nestedErrorMessage obj)]\<rparr>
         \<and> (\<forall>e m. getJsonObject obj (js ''error'') = Some e \<and>
                  getString e (js ''message'') = Some m \<and> m \<noteq> []
                  \<longrightarrow> nestedErrorMessage obj = m)
         \<and> (\<forall>e. getJsonObject obj (js ''error'') = Some e \<and>
                getString e (js ''message'') = None
                \<longrightarrow> nestedErrorMessage obj = js ''unknown'')
         \<and> (\<forall>e. getJsonObject obj (js ''error'') = Some e \<and>
                getString e (js ''message'') = Some []
                \<longrightarrow> nestedErrorMessage obj = js ''unknown'')
         \<and> (getJsonObject obj (js ''error'') = None
              \<longrightarrow> nestedErrorMessage obj = js ''unknown'')"
  using assms(1,2)
  by (simp add: onRealtimeEvent_def dispatch_error [OF assms(3)] surfaceProtocolError_def
      status_error emit_def Let_def nestedErrorMessage_def)

lemma dispatch_unrecognized:
  assumes "typeTag obj \<notin> set recognizedTypes"
  shows "dispatch obj s = s"
  using assms
  by (simp add: dispatch_def typeTag_def Let_def recognizedTypes_def)

text \<open>
  Claim C7. An inbound message that is not a string, does not parse, parses to a value that
  is not an object, or carries a type tag outside the recognized set leaves the whole state
  as it is: no callback is invoked (the callbacks invoked are part of the state), nothing is
  sent, no field changes.
\<close>

theorem noise_is_dropped:
  assumes "discarded h event"
  shows "onRealtimeEvent h event s = s"
  using assms
  by (auto simp add: discarded_def onRealtimeEvent_def Let_def dispatch_unrecognized
      split: messageData.splits option.splits json.splits)

theorem protocol_error_keeps_connection_witness:
  "onRealtimeEvent browser (TextData wireError) (initial (js ''sk'')) =
     (initial (js ''sk''))\<lparr>calls := [OnStatus (js ''Error: quota''), OnError (js ''quota'')]\<rparr>"
proof -
  let ?obj = "[(js ''type'', JString (js ''error'')),
               (js ''error'', JObject [(js ''message'', JString (js ''quota''))])]"
  have 1: "wireError \<noteq> []" by (simp add: wireError_def js_def)
  have 2: "parseJSON browser wireError = Some (JObject ?obj)"
    by (simp add: browser_def demoParse_def)
  have 3: "typeTag ?obj = js ''error'' \<or> typeTag ?obj = js ''response.error''"
    by (simp add: typeTag_def getString_def)
  have 4: "nestedErrorMessage ?obj = js ''quota''"
    by (simp add: nestedErrorMessage_def getJsonObject_def getString_def js_def)
  have 5: "trim (js ''Error: '' @ js ''quota'') = js ''Error: quota''"
    by (simp add: trim_def js_def is_white_space_def)
  show ?thesis
    using protocol_error_keeps_connection [OF 1 2 3, of "initial (js ''sk'')"]
    by (simp add: 4 5 initial_def)
qed

theorem noise_is_dropped_witness:
  "onRealtimeEvent browser (TextData wirePing) (initial (js ''sk'')) = initial (js ''sk'')
   \<and> onRealtimeEvent browser (TextData wireArray) (initial (js ''sk'')) = initial (js ''sk'')
   \<and> onRealtimeEvent browser (TextData wireBroken) (initial (js ''sk'')) = initial (js ''sk'')
   \<and> onRealtimeEvent browser OtherData (initial (js ''sk'')) = initial (js ''sk'')"
proof -
  have 1: "discarded browser (TextData wirePing)"
    by (simp add: discarded_def browser_def demoParse_def wirePing_def wireError_def
        quoted_def typeTag_def getString_def recognizedTypes_def js_def)
  have 2: "discarded browser (TextData wireArray)"
    by (simp add: discarded_def browser_def demoParse_def wirePing_def wireError_def
        wireArray_def quoted_def js_def)
  have 3: "discarded browser (TextData wireBroken)"
    by (simp add: discarded_def browser_def demoParse_def wirePing_def wireError_def
        wireArray_def wireBroken_def quoted_def js_def)
  have 4: "discarded browser OtherData"
    by (simp add: discarded_def)
  show ?thesis
    using noise_is_dropped [OF 1] noise_is_dropped [OF 2] noise_is_dropped [OF 3]
      noise_is_dropped [OF 4]
    by simp
qed

section \<open>The orchestrator without a credential\<close>

text \<open>
  Claim C8. While the provider has no credential (\<open>apiKey\<close> is null or empty),
  \<open>ensureConnected\<close> and \<open>startListening\<close> of the provider throw at once with the
  message \<open>OpenAI API key required.\<close>, which they also store as the error; the session
  ref is left as it is, so no session is constructed and no \<open>connect\<close> runs.
  \<open>startListening\<close> has registered the listener before.
\<close>

theorem no_credential_fails_at_once:
  assumes "noApiKey p"
  shows "ensureConnected h p =
           (p\<lparr>error_p := Some (js ''OpenAI API key required.'')\<rparr>,
            Throws (js ''OpenAI API key required.''))
         \<and> startListening_p h l p =
           (p\<lparr>listenerRef := l, error_p := Some (js ''OpenAI API key required.'')\<rparr>,
            Throws (js ''OpenAI API key required.''))
         \<and> transcriberRef (fst (ensureConnected h p)) = transcriberRef p
         \<and> transcriberRef (fst (startListening_p h l p)) = transcriberRef p"
  using assms
  by (simp add: ensureConnected_def startListening_p_def noApiKey_def Let_def)

theorem no_credential_fails_at_once_witness:
  "ensureConnected browser (mounted None) =
     ((mounted None)\<lparr>error_p := Some (js ''OpenAI API key required.'')\<rparr>,
      Throws (js ''OpenAI API key required.''))
   \<and> startListening_p browser (Some 7) (mounted None) =
     ((mounted None)\<lparr>listenerRef := Some 7, error_p := Some (js ''OpenAI API key required.'')\<rparr>,
      Throws (js ''OpenAI API key required.''))
   \<and> transcriberRef (fst (startListening_p browser (Some 7) (mounted None))) = None"
  using no_credential_fails_at_once [of "mounted None" browser "Some 7"]
  by (simp add: noApiKey_def mounted_def)

section \<open>Runs\<close>

lemmas operations =
  step_def connect_def disconnect_def startListening_def startListeningResumed_def
  beginListening_def stopListening_def resume_def resumeFulfilled_def catchBlock_def
  abandon_def finish_def suspend_def teardown_def cleanupLocalConnection_def
  closeChannel_def closePeer_def stopTracks_def handleDataChannelOpen_def
  handleDataChannelClosed_def handlePeerConnectionStateChange_def configureSession_def
  safeSend_def setConnectionState_def setListeningState_def resetTranscriptState_def
  invalidateConnectionAttempts_def isCurrentToken_def handleError_def emit_def
  status_literals

text \<open>Leaving Connected: the listening callback comes first, then the state changes.\<close>

lemma leaving_connected_stops_listening_first:
  assumes "st \<noteq> Connected" "listening s" "connectionState s = Connected"
  shows "callsSince s (setConnectionState st s) =
           [OnListeningChange False, OnConnectionStateChange st]"
    and "listening (setConnectionState st s) = False"
  using assms
  by (simp_all add: callsSince_def setConnectionState_def setListeningState_def emit_def Let_def)

text \<open>
  Claim C4 fails on the code: \<open>startListening\<close> checks only for Disconnected before it
  sets the listening flag, so \<open>connect()\<close> followed by \<open>startListening()\<close> while the
  first call still awaits \<open>getUserMedia\<close> leaves the session listening and Connecting.
\<close>

theorem listening_while_connecting:
  "listening (run browser [Connect, StartListening] (initial (js ''sk''))) = True
   \<and> connectionState (run browser [Connect, StartListening] (initial (js ''sk''))) = Connecting"
  by (simp add: run_def operations browser_def initial_def Let_def)

theorem stop_and_disconnect_when_idle_witness:
  "stopListening False (initial (js ''sk'')) = initial (js ''sk'')
   \<and> connectionState (run browser captureDenied (initial (js ''sk''))) = Disconnected
   \<and> connectToken (disconnect (run browser captureDenied (initial (js ''sk'')))) = 2
   \<and> calls (disconnect (run browser captureDenied (initial (js ''sk'')))) =
       calls (run browser captureDenied (initial (js ''sk''))) @ [OnStatus (js ''Disconnected.'')]"
proof -
  have d: "connectionState (run browser captureDenied (initial (js ''sk''))) = Disconnected"
    "connectToken (run browser captureDenied (initial (js ''sk''))) = 1"
    by (simp_all add: run_def captureDenied_def operations browser_def initial_def Let_def)
  have n: "\<not> listening (initial (js ''sk''))" by (simp add: initial_def)
  show ?thesis
    using stop_and_disconnect_when_idle [of "initial (js ''sk'')" browser captureDenied "js ''sk''"]
    by (simp add: stopIsNoOp_def disconnectWhenDisconnected_def d n)
qed

lemma firstStart_calls:
  assumes "inBrowser h" "hasGetUserMedia h"
  shows "calls (run h (firstStart offer st stText answer) (initial key)) =
     [OnConnectionStateChange Connecting,
      OnStatus (js ''Requesting microphone.''),
      OnStatus (js ''Building connection.''),
      OnStatus (js ''Exchanging SDP.''),
      OnStatus (js ''Waiting for channel.''),
      OnStatus (js ''Connected. Configuring.''),
      OnConnectionStateChange Connected]"
  using assms
  by (simp add: run_def firstStart_def operations initial_def Let_def)

text \<open>
  Claim C3, amended. On a new session in a browser, for \<open>startListening()\<close>, capture
  granted, a successful signaling exchange and the channel opening, the status and
  connection-state callbacks are observed in exactly this order: state to Connecting,
  status \<open>Requesting microphone.\<close>, \<open>Building connection.\<close>, \<open>Exchanging SDP.\<close>,
  \<open>Waiting for channel.\<close>, \<open>Connected. Configuring.\<close>, state to Connected.
\<close>

theorem first_start_order:
  assumes "inBrowser h" "hasGetUserMedia h"
  shows "statusAndStateCalls (calls (run h (firstStart offer st stText answer) (initial key))) =
     [OnConnectionStateChange Connecting,
      OnStatus (js ''Requesting microphone.''),
      OnStatus (js ''Building connection.''),
      OnStatus (js ''Exchanging SDP.''),
      OnStatus (js ''Waiting for channel.''),
      OnStatus (js ''Connected. Configuring.''),
      OnConnectionStateChange Connected]"
  by (simp add: firstStart_calls [OF assms])

theorem first_start_order_witness:
  "statusAndStateCalls
     (calls (run browser (firstStart (js ''offer'') (js ''201'') (js ''Created'') (js ''answer''))
        (initial (js ''sk'')))) =
     [OnConnectionStateChange Connecting,
      OnStatus (js ''Requesting microphone.''),
      OnStatus (js ''Building connection.''),
      OnStatus (js ''Exchanging SDP.''),
      OnStatus (js ''Waiting for channel.''),
      OnStatus (js ''Connected. Configuring.''),
      OnConnectionStateChange Connected]"
  using first_start_order [of browser "js ''offer''" "js ''201''" "js ''Created''" "js ''answer''"
      "js ''sk''"]
  by (simp add: browser_def)

text \<open>
  Claim C3 as stated fails: in the run of the scenario the callbacks of the specified list
  do not occur in the specified order, not even with other callbacks in between. The status
  \<open>Connected. Configuring.\<close> comes before the change to Connected, and the listening
  callback is not invoked.
\<close>

theorem first_start_order_counterexample:
  "\<not> occurInOrder specifiedOrder
     (calls (run browser (firstStart (js ''offer'') (js ''201'') (js ''Created'') (js ''answer''))
        (initial (js ''sk''))))"
proof -
  have b: "inBrowser browser" "hasGetUserMedia browser" by (simp_all add: browser_def)
  show ?thesis
    by (simp add: firstStart_calls [OF b] specifiedOrder_def js_def)
qed

section \<open>Runs with a second connect\<close>

lemma reconnectEarly_state:
  "attempts (run browser reconnectEarly (initial (js ''sk''))) =
     [firstCall,
      \<lparr>token = 3, stage = AwaitGetUserMedia, localStream = None, localPc = None,
       localDc = None, offerSdp = [], awaited = False\<rparr>]"
  "connectToken (run browser reconnectEarly (initial (js ''sk''))) = 3"
  "released (run browser reconnectEarly (initial (js ''sk''))) = []"
  by (simp_all add: run_def reconnectEarly_def firstCall_def operations browser_def initial_def
      Let_def)

lemma connectGranted_state:
  "attempts (run browser connectGranted (initial (js ''sk''))) = [firstCall]"
  "connectToken (run browser connectGranted (initial (js ''sk''))) = 1"
  by (simp_all add: run_def connectGranted_def firstCall_def operations browser_def initial_def
      Let_def)

theorem token_supersession_witness:
  "connectToken (run browser reconnectEarly (initial (js ''sk''))) = 3
   \<and> staleResume firstCall (Fulfilled (Text (js ''offer'')))
       (run browser reconnectEarly (initial (js ''sk'')))
   \<and> staleResume firstCall (Rejected OtherValue)
       (run browser reconnectEarly (initial (js ''sk'')))
   \<and> released (resume firstCall (Fulfilled (Text (js ''offer'')))
       (run browser reconnectEarly (initial (js ''sk'')))) = [2, 1, 0]
   \<and> connectToken (disconnect (run browser connectGranted (initial (js ''sk'')))) = 2
   \<and> attempts (disconnect (run browser connectGranted (initial (js ''sk'')))) = [firstCall]
   \<and> staleResume firstCall (Fulfilled (Text (js ''offer'')))
       (disconnect (run browser connectGranted (initial (js ''sk''))))"
proof -
  let ?s = "run browser reconnectEarly (initial (js ''sk''))"
  let ?g = "run browser connectGranted (initial (js ''sk''))"
  have 1: "\<forall>r. staleResume firstCall r ?s"
    using token_supersession [of browser reconnectEarly "js ''sk''"]
    by (simp add: supersession_def reconnectEarly_state firstCall_def)
  have 2: "released (resume firstCall (Fulfilled (Text (js ''offer''))) ?s) = [2, 1, 0]"
    by (simp add: resume_def resumeFulfilled_def abandon_def isCurrentToken_def
        reconnectEarly_state firstCall_def)
  have 3: "invalidates ?g (disconnect ?g) \<and> attempts (disconnect ?g) = attempts ?g"
    using token_supersession [of browser connectGranted "js ''sk''"]
    by (simp add: supersession_def)
  then have 4: "connectToken (disconnect ?g) = 2"
    "\<forall>r. staleResume firstCall r (disconnect ?g)"
    by (simp_all add: invalidates_def connectGranted_state)
  show ?thesis using 1 2 3 4 by (simp add: reconnectEarly_state connectGranted_state)
qed

text \<open>
  Claim C2 as stated fails: the second of two \<open>connect()\<close> calls in a row finds the session
  Connecting and returns, so no second attempt exists. When the promises of the first
  call are fulfilled, its stream, peer and channel become the live resources, none of them
  is released, and the token is still 1.
\<close>

theorem second_connect_counterexample:
  "live (run browser connectTwice (initial (js ''sk''))) = [0, 1, 2]
   \<and> created (run browser connectTwice (initial (js ''sk''))) = [(0, 1), (1, 1), (2, 1)]
   \<and> released (run browser connectTwice (initial (js ''sk''))) = []
   \<and> connectToken (run browser connectTwice (initial (js ''sk''))) = 1
   \<and> attempts (run browser connectTwice (initial (js ''sk''))) = []"
  by (simp add: run_def connectTwice_def operations browser_def initial_def Let_def live_def)

section \<open>A refused signaling exchange\<close>

text \<open>The session ends Disconnected, the error callback receives the failure status, and the
  stream, the peer and the channel of the call are released.\<close>

lemma exchange_refused:
  "connectionState (run browser exchangeRefused (initial (js ''sk''))) = Disconnected"
  "calls (run browser exchangeRefused (initial (js ''sk''))) =
     [OnConnectionStateChange Connecting,
      OnStatus (js ''Requesting microphone.''),
      OnStatus (js ''Building connection.''),
      OnStatus (js ''Exchanging SDP.''),
      OnError (js ''SDP exchange failed: 401 Unauthorized''),
      OnConnectionStateChange Disconnected]"
  "released (run browser exchangeRefused (initial (js ''sk''))) = [2, 1, 0]"
  "live (run browser exchangeRefused (initial (js ''sk''))) = []"
  "requests (run browser exchangeRefused (initial (js ''sk''))) = [SdpPost (js ''sk'') (js ''offer'')]"
proof -
  have e: "js ''SDP exchange failed: 401 Unauthorized'' =
      js ''SDP exchange failed: '' @ js ''401'' @ js '' '' @ js ''Unauthorized''"
    by (simp add: js_def)
  show "connectionState (run browser exchangeRefused (initial (js ''sk''))) = Disconnected"
    "calls (run browser exchangeRefused (initial (js ''sk''))) =
     [OnConnectionStateChange Connecting,
      OnStatus (js ''Requesting microphone.''),
      OnStatus (js ''Building connection.''),
      OnStatus (js ''Exchanging SDP.''),
      OnError (js ''SDP exchange failed: 401 Unauthorized''),
      OnConnectionStateChange Disconnected]"
    "released (run browser exchangeRefused (initial (js ''sk''))) = [2, 1, 0]"
    "live (run browser exchangeRefused (initial (js ''sk''))) = []"
    "requests (run browser exchangeRefused (initial (js ''sk''))) = [SdpPost (js ''sk'') (js ''offer'')]"
    by (simp_all add: run_def exchangeRefused_def operations browser_def initial_def Let_def
        live_def e)
qed

end
